theory Spec2Isabelle
  imports Complex_Main "HOL-Library.Word"
begin

unbundle bit_operations_syntax

section \<open>The simulated hash tables of \<^verbatim>\<open>boost_unordered_flat_map_stats.cpp\<close>\<close>

text \<open>
  The source simulates two open-addressing designs, \<^verbatim>\<open>boost_map\<close> (groups of up to 15
  keys with an 8-bit overflow marker) and \<^verbatim>\<open>abseil_map\<close> (a flat slot array probed in
  16-wide windows), both driven by \<^verbatim>\<open>pow2_quadratic_prober\<close>, and a driver
  \<^verbatim>\<open>stats_row\<close> that fills a table and averages lookup costs.

  Conventions of the embedding.
  \<^item> \<^verbatim>\<open>std::size_t\<close> is a 64-bit word: keys, slot positions and the prober's step counter
    wrap around as in the source.
  \<^item> The counters \<^verbatim>\<open>num_hops\<close> and \<^verbatim>\<open>num_cmps\<close> and a group's fill count \<^verbatim>\<open>n\<close> are
    natural numbers. A lookup adds one hop per group left behind and counts at most one
    comparison per stored key plus one, and a table holds fewer than \<open>2^64\<close> bytes, so
    these counters cannot wrap.
  \<^item> The probing loops have no exit on exhaustion, so they are partial functions:
    \<open>None\<close> stands for a call that never returns.
  \<^item> A call that would leave defined C++ behaviour returns a \<open>fault\<close>: a vector read
    outside its bounds, or a right shift by the full word width.
  \<^item> A \<^verbatim>\<open>float\<close> is the rational number it denotes. A conversion to \<^verbatim>\<open>float\<close> and every
    \<^verbatim>\<open>float\<close> operation rounds to the nearest number with a significand of 24 bits, ties
    to even, as IEEE single precision does. The exponent range of the format is not
    modelled: the operands are counts below \<open>2^64\<close> and a load factor, whose products and
    quotients stay far inside it. The quotient by zero, which IEEE arithmetic gives as
    an infinity or a NaN, is the separate value \<open>NotFinite\<close>, so that a guard against it
    is visible in the result.
\<close>

type_synonym size_t = "64 word"

datatype fault = OutOfRange | ShiftOutOfRange

datatype float_val = Finite rat | NotFinite

subsection \<open>The probe-sequence generator\<close>

record pow2_quadratic_prober =
  pos :: size_t
  step :: size_t

definition prober_init :: "size_t \<Rightarrow> pow2_quadratic_prober" where
  "prober_init pos0 = \<lparr>pos = pos0, step = 0\<rparr>"

definition pb_get :: "pow2_quadratic_prober \<Rightarrow> size_t" where
  "pb_get pb = pos pb"

text \<open>\<^verbatim>\<open>next(mask)\<close>: the updated prober is returned beside the boolean.\<close>

definition pb_next :: "pow2_quadratic_prober \<Rightarrow> size_t \<Rightarrow> bool \<times> pow2_quadratic_prober" where
  "pb_next pb msk =
     (let step1 = step pb + 1;
          pos1 = (pos pb + step1) AND msk
      in (step1 \<le> msk, \<lparr>pos = pos1, step = step1\<rparr>))"

text \<open>The prober after \<open>i\<close> calls of \<^verbatim>\<open>next\<close>, and the positions it shows on the way:
  \<^verbatim>\<open>get()\<close> before the first call and after each of the \<open>i\<close> calls.\<close>

fun pb_advance :: "nat \<Rightarrow> size_t \<Rightarrow> pow2_quadratic_prober \<Rightarrow> pow2_quadratic_prober" where
  "pb_advance 0 msk pb = pb"
| "pb_advance (Suc i) msk pb = pb_advance i msk (snd (pb_next pb msk))"

fun probe_positions :: "nat \<Rightarrow> size_t \<Rightarrow> pow2_quadratic_prober \<Rightarrow> size_t list" where
  "probe_positions 0 msk pb = [pb_get pb]"
| "probe_positions (Suc i) msk pb = pb_get pb # probe_positions i msk (snd (pb_next pb msk))"

text \<open>Triangular numbers: the offset of the \<open>i\<close>-th position from the start.\<close>

fun tri :: "nat \<Rightarrow> nat" where
  "tri 0 = 0"
| "tri (Suc i) = tri i + Suc i"

subsection \<open>Lookup accounting\<close>

record find_info =
  num_hops :: nat
  num_cmps :: nat

text \<open>\<^verbatim>\<open>operator+=\<close>\<close>

definition find_info_add :: "find_info \<Rightarrow> find_info \<Rightarrow> find_info" where
  "find_info_add a x =
     \<lparr>num_hops = num_hops a + num_hops x, num_cmps = num_cmps a + num_cmps x\<rparr>"

subsection \<open>The standard algorithms the source calls\<close>

text \<open>\<^verbatim>\<open>std::find\<close> and \<^verbatim>\<open>std::count_if\<close> over the index range \<open>[first, last')\<close> of an
  array; iterators are indices. The source only passes ranges with \<open>first \<le> last'\<close>.\<close>

function std_find :: "'a list \<Rightarrow> nat \<Rightarrow> nat \<Rightarrow> 'a \<Rightarrow> nat" where
  "std_find xs first last' x =
     (if first < last'
      then (if xs ! first = x then first else std_find xs (first + 1) last' x)
      else first)"
  by pat_completeness auto
termination
  by (relation "measure (\<lambda>(xs, first, last', x). last' - first)") auto

function std_count_if :: "'a list \<Rightarrow> nat \<Rightarrow> nat \<Rightarrow> ('a \<Rightarrow> bool) \<Rightarrow> nat" where
  "std_count_if xs first last' p =
     (if first < last'
      then (if p (xs ! first) then 1 else 0) + std_count_if xs (first + 1) last' p
      else 0)"
  by pat_completeness auto
termination
  by (relation "measure (\<lambda>(xs, first, last', p). last' - first)") auto

declare std_find.simps [simp del]
declare std_count_if.simps [simp del]

text \<open>\<^verbatim>\<open>std::bit_width\<close>\<close>

fun bit_width :: "nat \<Rightarrow> nat" where
  "bit_width x = (if x = 0 then 0 else Suc (bit_width (x div 2)))"

declare bit_width.simps [simp del]

subsection \<open>Single-precision arithmetic\<close>

text \<open>The nearest integer, ties to the even one.\<close>

definition round_half_even :: "rat \<Rightarrow> int" where
  "round_half_even y =
     (let f = \<lfloor>y\<rfloor>; r = y - of_int f
      in if r < 1 / 2 then f else if 1 / 2 < r then f + 1 else if even f then f else f + 1)"

text \<open>The binary exponent of a positive number: the \<open>e\<close> with \<open>2^e \<le> x < 2^(e+1)\<close>.\<close>

definition float_exponent :: "rat \<Rightarrow> int" where
  "float_exponent x =
     (if 1 \<le> x then int (bit_width (nat \<lfloor>x\<rfloor>)) - 1
      else - int (bit_width (nat \<lceil>1 / x\<rceil> - 1)))"

text \<open>The \<^verbatim>\<open>float\<close> nearest to \<open>x\<close>: \<open>x\<close> rounded to a multiple of \<open>2^(e-23)\<close>, where \<open>e\<close>
  is its exponent. This is the value of a conversion \<^verbatim>\<open>float(x)\<close> and of a \<^verbatim>\<open>float\<close>
  operation whose exact result is \<open>x\<close>.\<close>

definition float_round :: "rat \<Rightarrow> rat" where
  "float_round x =
     (if x = 0 then 0
      else let u = 2 powi (float_exponent \<bar>x\<bar> - 23)
           in of_int (round_half_even (x / u)) * u)"

text \<open>\<^verbatim>\<open>float(x)/n\<close> for unsigned \<open>x\<close> and \<open>n\<close>: both operands are converted to \<^verbatim>\<open>float\<close>,
  then divided.\<close>

definition float_div :: "nat \<Rightarrow> nat \<Rightarrow> float_val" where
  "float_div x n =
     (let a = float_round (of_nat x); b = float_round (of_nat n)
      in if b = 0 then NotFinite else Finite (float_round (a / b)))"

subsection \<open>Variant A: \<^verbatim>\<open>boost_map\<close>\<close>

text \<open>A group: the array \<^verbatim>\<open>elements\<close> of 15 keys, of which the first \<^verbatim>\<open>n\<close> are occupied, and
  the marker byte \<^verbatim>\<open>overflow\<close>. The fields carry the prefix \<open>g_\<close>.\<close>

record group =
  g_elements :: "size_t list"
  g_n :: nat
  g_overflow :: "8 word"

record boost_map =
  groups :: "group list"
  shift :: nat

definition boost_N :: nat where
  "boost_N = 15"

text \<open>The constructor: \<^verbatim>\<open>capacity\<close> empty groups, and
  \<^verbatim>\<open>shift = 64 - bit_width(groups.size() - 1)\<close>.\<close>

definition boost_new :: "size_t \<Rightarrow> boost_map" where
  "boost_new capacity =
     \<lparr>groups = replicate (unat capacity)
                 \<lparr>g_elements = replicate boost_N 0, g_n = 0, g_overflow = 0\<rparr>,
      shift = 64 - bit_width (unat (capacity - 1))\<rparr>"

definition reduced_hash :: "size_t \<Rightarrow> 8 word" where
  "reduced_hash hash =
     (let h = (ucast hash :: 8 word) in if h = 0 then 8 else if h = 1 then 9 else h)"

text \<open>\<^verbatim>\<open>hash >> shift\<close>. A shift by 64 or more is undefined in C++; it happens exactly
  when the table has a single group (\<^verbatim>\<open>bit_width(0) = 0\<close>).\<close>

definition boost_position_for :: "boost_map \<Rightarrow> size_t \<Rightarrow> fault + size_t" where
  "boost_position_for m hash =
     (if 64 \<le> shift m then Inl ShiftOutOfRange else Inr (drop_bit (shift m) hash))"

partial_function (option) boost_find_loop ::
  "boost_map \<Rightarrow> size_t \<Rightarrow> pow2_quadratic_prober \<Rightarrow> find_info
     \<Rightarrow> (fault + find_info \<times> bool) option" where
  "boost_find_loop m hash pb info =
     (if \<not> unat (pb_get pb) < length (groups m) then Some (Inl OutOfRange)
      else
        let g = groups m ! unat (pb_get pb);
            first = 0;
            last' = first + g_n g;
            it = std_find (g_elements g) first last' hash;
            info = info\<lparr>num_cmps := num_cmps info +
                     std_count_if (g_elements g) first it
                       (\<lambda>x. reduced_hash x = reduced_hash hash)\<rparr>
        in if it \<noteq> last' then Some (Inr (info\<lparr>num_cmps := num_cmps info + 1\<rparr>, True))
           else if g_overflow g AND push_bit (unat (hash mod 8)) 1 = 0
           then Some (Inr (info, False))
           else boost_find_loop m hash
                  (snd (pb_next pb (of_nat (length (groups m)) - 1)))
                  (info\<lparr>num_hops := num_hops info + 1\<rparr>))"

declare boost_find_loop.simps [code]

definition boost_find :: "boost_map \<Rightarrow> size_t \<Rightarrow> (fault + find_info \<times> bool) option" where
  "boost_find m hash =
     (case boost_position_for m hash of
        Inl e \<Rightarrow> Some (Inl e)
      | Inr p \<Rightarrow> boost_find_loop m hash (prober_init p) \<lparr>num_hops = 0, num_cmps = 0\<rparr>)"

partial_function (option) boost_insert_loop ::
  "boost_map \<Rightarrow> size_t \<Rightarrow> pow2_quadratic_prober \<Rightarrow> (fault + boost_map \<times> bool) option" where
  "boost_insert_loop m hash pb =
     (if \<not> unat (pb_get pb) < length (groups m) then Some (Inl OutOfRange)
      else
        let i = unat (pb_get pb);
            g = groups m ! i
        in if g_n g < boost_N
           then Some (Inr (m\<lparr>groups := (groups m)
                               [i := g\<lparr>g_elements := (g_elements g)[g_n g := hash],
                                       g_n := g_n g + 1\<rparr>]\<rparr>, True))
           else boost_insert_loop
                  (m\<lparr>groups := (groups m)
                        [i := g\<lparr>g_overflow := g_overflow g OR push_bit (unat (hash mod 8)) 1\<rparr>]\<rparr>)
                  hash (snd (pb_next pb (of_nat (length (groups m)) - 1))))"

declare boost_insert_loop.simps [code]

text \<open>\<^verbatim>\<open>insert\<close> returns the table beside the boolean.\<close>

definition boost_insert :: "boost_map \<Rightarrow> size_t \<Rightarrow> (fault + boost_map \<times> bool) option" where
  "boost_insert m hash =
     (case boost_find m hash of
        None \<Rightarrow> None
      | Some (Inl e) \<Rightarrow> Some (Inl e)
      | Some (Inr (info, found)) \<Rightarrow>
          if found then Some (Inr (m, False))
          else (case boost_position_for m hash of
                  Inl e \<Rightarrow> Some (Inl e)
                | Inr p \<Rightarrow> boost_insert_loop m hash (prober_init p)))"

definition boost_pr_group_full :: "boost_map \<Rightarrow> float_val" where
  "boost_pr_group_full m =
     (let num_full = std_count_if (groups m) 0 (length (groups m)) (\<lambda>g. g_n g = boost_N)
      in float_div num_full (length (groups m)))"

subsection \<open>Variant B: \<^verbatim>\<open>abseil_map\<close>\<close>

record abseil_map =
  elements :: "size_t option list"

definition abseil_N :: nat where
  "abseil_N = 16"

definition abseil_new :: "size_t \<Rightarrow> abseil_map" where
  "abseil_new capacity = \<lparr>elements = replicate (unat (capacity * of_nat abseil_N)) None\<rparr>"

text \<open>\<^verbatim>\<open>elements.size()\<close>\<close>

definition abseil_size :: "abseil_map \<Rightarrow> size_t" where
  "abseil_size m = of_nat (length (elements m))"

text \<open>\<^verbatim>\<open>element_at\<close> reads \<^verbatim>\<open>elements[pos & (elements.size() - 1)]\<close>. The index is within
  bounds for every \<open>pos\<close> unless the vector is empty (lemma \<open>abseil_index_in_range\<close>);
  the loops below report the read of an empty vector as a fault before they scan.\<close>

definition abseil_element_at :: "abseil_map \<Rightarrow> size_t \<Rightarrow> size_t option" where
  "abseil_element_at m p = elements m ! unat (p AND (abseil_size m - 1))"

definition abseil_position_for :: "abseil_map \<Rightarrow> size_t \<Rightarrow> size_t" where
  "abseil_position_for m hash = drop_bit 7 hash AND (abseil_size m - 1)"

text \<open>The private overload \<^verbatim>\<open>find(first, last, x)\<close>.\<close>

function abseil_find_in :: "abseil_map \<Rightarrow> size_t \<Rightarrow> size_t \<Rightarrow> size_t option \<Rightarrow> size_t" where
  "abseil_find_in m first last' x =
     (if first \<noteq> last'
      then (if abseil_element_at m first = x then first
            else abseil_find_in m (first + 1) last' x)
      else first)"
  by pat_completeness auto
termination
proof (relation "measure (\<lambda>(m, first, last', x). unat (last' - first))")
  show "wf (measure (\<lambda>(m, first, last', x). unat (last' - first)))" by simp
next
  fix m :: abseil_map and first last' :: size_t and x :: "size_t option"
  assume "first \<noteq> last'"
  then have "last' - first \<noteq> 0" by simp
  then have "unat (last' - first - 1) < unat (last' - first)"
    by (simp add: unat_minus_one unat_gt_0)
  then have "unat (last' - (first + 1)) < unat (last' - first)"
    by (simp only: diff_diff_add [symmetric])
  then show "((m, first + 1, last', x), (m, first, last', x))
         \<in> measure (\<lambda>(m, first, last', x). unat (last' - first))" by simp
qed

function abseil_num_cmps :: "abseil_map \<Rightarrow> size_t \<Rightarrow> size_t \<Rightarrow> size_t \<Rightarrow> nat" where
  "abseil_num_cmps m first last' hash =
     (if first \<noteq> last'
      then (case abseil_element_at m first of
              None \<Rightarrow> 0
            | Some x \<Rightarrow> if x AND 0x7f = hash AND 0x7f then 1 else 0)
           + abseil_num_cmps m (first + 1) last' hash
      else 0)"
  by pat_completeness auto
termination
proof (relation "measure (\<lambda>(m, first, last', hash). unat (last' - first))")
  show "wf (measure (\<lambda>(m, first, last', hash). unat (last' - first)))" by simp
next
  fix m :: abseil_map and first last' hash :: size_t
  assume "first \<noteq> last'"
  then have "last' - first \<noteq> 0" by simp
  then have "unat (last' - first - 1) < unat (last' - first)"
    by (simp add: unat_minus_one unat_gt_0)
  then have "unat (last' - (first + 1)) < unat (last' - first)"
    by (simp only: diff_diff_add [symmetric])
  then show "((m, first + 1, last', hash), (m, first, last', hash))
         \<in> measure (\<lambda>(m, first, last', hash). unat (last' - first))" by simp
qed

declare abseil_find_in.simps [simp del]
declare abseil_num_cmps.simps [simp del]

partial_function (option) abseil_find_loop ::
  "abseil_map \<Rightarrow> size_t \<Rightarrow> size_t \<Rightarrow> pow2_quadratic_prober \<Rightarrow> find_info
     \<Rightarrow> (fault + find_info \<times> bool) option" where
  "abseil_find_loop m hash off pb info =
     (if elements m = [] then Some (Inl OutOfRange)
      else
        let pos0 = pb_get pb * of_nat abseil_N + off;
            pos1 = abseil_find_in m pos0 (pos0 + of_nat abseil_N) (Some hash);
            info = info\<lparr>num_cmps := num_cmps info + abseil_num_cmps m pos0 pos1 hash\<rparr>
        in if pos1 \<noteq> pos0 + of_nat abseil_N
           then Some (Inr (info\<lparr>num_cmps := num_cmps info + 1\<rparr>, True))
           else if abseil_find_in m pos0 (pos0 + of_nat abseil_N) None \<noteq> pos0 + of_nat abseil_N
           then Some (Inr (info, False))
           else abseil_find_loop m hash off
                  (snd (pb_next pb (abseil_size m div of_nat abseil_N - 1)))
                  (info\<lparr>num_hops := num_hops info + 1\<rparr>))"

declare abseil_find_loop.simps [code]

definition abseil_find :: "abseil_map \<Rightarrow> size_t \<Rightarrow> (fault + find_info \<times> bool) option" where
  "abseil_find m hash =
     (let pos = abseil_position_for m hash;
          off = pos mod of_nat abseil_N
      in abseil_find_loop m hash off (prober_init (pos div of_nat abseil_N))
           \<lparr>num_hops = 0, num_cmps = 0\<rparr>)"

partial_function (option) abseil_insert_loop ::
  "abseil_map \<Rightarrow> size_t \<Rightarrow> size_t \<Rightarrow> pow2_quadratic_prober
     \<Rightarrow> (fault + abseil_map \<times> bool) option" where
  "abseil_insert_loop m hash off pb =
     (if elements m = [] then Some (Inl OutOfRange)
      else
        let pos0 = pb_get pb * of_nat abseil_N + off;
            pos1 = abseil_find_in m pos0 (pos0 + of_nat abseil_N) None
        in if pos1 \<noteq> pos0 + of_nat abseil_N
           then Some (Inr (m\<lparr>elements := (elements m)
                               [unat (pos1 AND (abseil_size m - 1)) := Some hash]\<rparr>, True))
           else abseil_insert_loop m hash off
                  (snd (pb_next pb (abseil_size m div of_nat abseil_N - 1))))"

declare abseil_insert_loop.simps [code]

definition abseil_insert :: "abseil_map \<Rightarrow> size_t \<Rightarrow> (fault + abseil_map \<times> bool) option" where
  "abseil_insert m hash =
     (case abseil_find m hash of
        None \<Rightarrow> None
      | Some (Inl e) \<Rightarrow> Some (Inl e)
      | Some (Inr (info, found)) \<Rightarrow>
          if found then Some (Inr (m, False))
          else (let pos = abseil_position_for m hash;
                    off = pos mod of_nat abseil_N
                in abseil_insert_loop m hash off (prober_init (pos div of_nat abseil_N))))"

text \<open>The counting loop of \<^verbatim>\<open>pr_group_full\<close>, from position \<open>p\<close> with \<open>num_full\<close> counted
  so far.\<close>

function abseil_pr_group_full_loop :: "abseil_map \<Rightarrow> size_t \<Rightarrow> nat \<Rightarrow> nat" where
  "abseil_pr_group_full_loop m p num_full =
     (if p < abseil_size m
      then abseil_pr_group_full_loop m (p + 1)
             (if abseil_find_in m p (p + of_nat abseil_N) None = p + of_nat abseil_N
              then num_full + 1 else num_full)
      else num_full)"
  by pat_completeness auto
termination
proof (relation "measure (\<lambda>(m, p, num_full). unat (abseil_size m - p))")
  show "wf (measure (\<lambda>(m, p, num_full). unat (abseil_size m - p)))" by simp
next
  fix m :: abseil_map and p :: size_t and num_full :: nat
  assume "p < abseil_size m"
  then have "abseil_size m - p \<noteq> 0" by simp
  then have "unat (abseil_size m - p - 1) < unat (abseil_size m - p)"
    by (simp add: unat_minus_one unat_gt_0)
  then have "unat (abseil_size m - (p + 1)) < unat (abseil_size m - p)"
    by (simp only: diff_diff_add [symmetric])
  then show "((m, p + 1,
           if abseil_find_in m p (p + of_nat abseil_N) None = p + of_nat abseil_N
           then num_full + 1 else num_full), (m, p, num_full))
         \<in> measure (\<lambda>(m, p, num_full). unat (abseil_size m - p))" by simp
qed

declare abseil_pr_group_full_loop.simps [simp del]

definition abseil_pr_group_full :: "abseil_map \<Rightarrow> float_val" where
  "abseil_pr_group_full m =
     float_div (abseil_pr_group_full_loop m 0 0) (length (elements m))"

subsection \<open>The driver \<^verbatim>\<open>stats_row\<close>\<close>

text \<open>The template parameter \<^verbatim>\<open>Map\<close> is a record of the operations the driver uses.\<close>

record 'm map_ops =
  ops_N :: nat
  ops_new :: "size_t \<Rightarrow> 'm"
  ops_insert :: "'m \<Rightarrow> size_t \<Rightarrow> (fault + 'm \<times> bool) option"
  ops_find :: "'m \<Rightarrow> size_t \<Rightarrow> (fault + find_info \<times> bool) option"
  ops_pr_group_full :: "'m \<Rightarrow> float_val"

definition boost_ops :: "boost_map map_ops" where
  "boost_ops = \<lparr>ops_N = boost_N, ops_new = boost_new, ops_insert = boost_insert,
                 ops_find = boost_find, ops_pr_group_full = boost_pr_group_full\<rparr>"

definition abseil_ops :: "abseil_map map_ops" where
  "abseil_ops = \<lparr>ops_N = abseil_N, ops_new = abseil_new, ops_insert = abseil_insert,
                  ops_find = abseil_find, ops_pr_group_full = abseil_pr_group_full\<rparr>"

text \<open>One output row: the six fields written to \<^verbatim>\<open>std::cout\<close>.\<close>

record stats =
  st_lf :: rat
  st_pr_group_full :: float_val
  st_hops_successful :: float_val
  st_cmps_successful :: float_val
  st_hops_unsuccessful :: float_val
  st_cmps_unsuccessful :: float_val

text \<open>\<^verbatim>\<open>std::size_t(capacity*lf*N)\<close>: the product is formed in \<^verbatim>\<open>float\<close> from the left, each
  integer operand converted first, and then truncated. \<open>lf\<close> is the value of the \<^verbatim>\<open>float\<close>
  argument, which is not negative; the product is below \<open>2^64\<close>.\<close>

definition target_size :: "'m map_ops \<Rightarrow> size_t \<Rightarrow> rat \<Rightarrow> size_t" where
  "target_size ops capacity lf =
     of_int \<lfloor>float_round (float_round (float_round (of_nat (unat capacity)) * lf)
                            * float_round (of_nat (ops_N ops)))\<rfloor>"

text \<open>The three loops of \<^verbatim>\<open>stats_row\<close>. The random source is outside the program: \<open>gen i\<close>
  is the \<open>i\<close>-th value \<^verbatim>\<open>dist(gen)\<close> yields after seeding, \<open>k\<close> is the loop counter
  \<^verbatim>\<open>n\<close> and \<open>size'\<close> the target.\<close>

partial_function (option) stats_row_insert_loop ::
  "'m map_ops \<Rightarrow> (nat \<Rightarrow> size_t) \<Rightarrow> 'm \<Rightarrow> nat \<Rightarrow> size_t \<Rightarrow> size_t \<Rightarrow> (fault + 'm) option" where
  "stats_row_insert_loop ops gen m i k size' =
     (if k \<noteq> size'
      then (case ops_insert ops m (gen i) of
              None \<Rightarrow> None
            | Some (Inl e) \<Rightarrow> Some (Inl e)
            | Some (Inr (m', inserted)) \<Rightarrow>
                stats_row_insert_loop ops gen m' (i + 1) (if inserted then k + 1 else k) size')
      else Some (Inr m))"

partial_function (option) stats_row_successful_loop ::
  "'m map_ops \<Rightarrow> (nat \<Rightarrow> size_t) \<Rightarrow> 'm \<Rightarrow> nat \<Rightarrow> size_t \<Rightarrow> size_t \<Rightarrow> find_info
     \<Rightarrow> (fault + find_info) option" where
  "stats_row_successful_loop ops gen m i k size' info =
     (if k \<noteq> size'
      then (case ops_find ops m (gen i) of
              None \<Rightarrow> None
            | Some (Inl e) \<Rightarrow> Some (Inl e)
            | Some (Inr (x, b)) \<Rightarrow>
                stats_row_successful_loop ops gen m (i + 1) (k + 1) size' (find_info_add info x))
      else Some (Inr info))"

partial_function (option) stats_row_unsuccessful_loop ::
  "'m map_ops \<Rightarrow> (nat \<Rightarrow> size_t) \<Rightarrow> 'm \<Rightarrow> nat \<Rightarrow> size_t \<Rightarrow> size_t \<Rightarrow> find_info
     \<Rightarrow> (fault + find_info) option" where
  "stats_row_unsuccessful_loop ops gen m i k size' info =
     (if k \<noteq> size'
      then (case ops_find ops m (gen i) of
              None \<Rightarrow> None
            | Some (Inl e) \<Rightarrow> Some (Inl e)
            | Some (Inr (x, b)) \<Rightarrow>
                if \<not> b
                then stats_row_unsuccessful_loop ops gen m (i + 1) (k + 1) size'
                       (find_info_add info x)
                else stats_row_unsuccessful_loop ops gen m (i + 1) k size' info)
      else Some (Inr info))"

declare stats_row_insert_loop.simps [code]
declare stats_row_successful_loop.simps [code]
declare stats_row_unsuccessful_loop.simps [code]

text \<open>\<^verbatim>\<open>(!size ? 0.f : float(x)/size)\<close>\<close>

definition guarded_mean :: "size_t \<Rightarrow> nat \<Rightarrow> float_val" where
  "guarded_mean size' x = (if size' = 0 then Finite 0 else float_div x (unat size'))"

definition stats_row ::
  "'m map_ops \<Rightarrow> (nat \<Rightarrow> size_t) \<Rightarrow> (nat \<Rightarrow> size_t) \<Rightarrow> size_t \<Rightarrow> rat
     \<Rightarrow> (fault + stats) option" where
  "stats_row ops gen0 gen1 capacity lf =
     (let m = ops_new ops capacity;
          size' = target_size ops capacity lf
      in case stats_row_insert_loop ops gen0 m 0 0 size' of
           None \<Rightarrow> None
         | Some (Inl e) \<Rightarrow> Some (Inl e)
         | Some (Inr m) \<Rightarrow>
            (case stats_row_successful_loop ops gen0 m 0 0 size'
                    \<lparr>num_hops = 0, num_cmps = 0\<rparr> of
               None \<Rightarrow> None
             | Some (Inl e) \<Rightarrow> Some (Inl e)
             | Some (Inr hit) \<Rightarrow>
                (case stats_row_unsuccessful_loop ops gen1 m 0 0 size'
                        \<lparr>num_hops = 0, num_cmps = 0\<rparr> of
                   None \<Rightarrow> None
                 | Some (Inl e) \<Rightarrow> Some (Inl e)
                 | Some (Inr miss) \<Rightarrow>
                     Some (Inr \<lparr>st_lf = lf,
                                st_pr_group_full = ops_pr_group_full ops m,
                                st_hops_successful = guarded_mean size' (num_hops hit),
                                st_cmps_successful = guarded_mean size' (num_cmps hit),
                                st_hops_unsuccessful = guarded_mean size' (num_hops miss),
                                st_cmps_unsuccessful = guarded_mean size' (num_cmps miss)\<rparr>))))"

section \<open>Notions used to state the properties\<close>

text \<open>The definitions of this section describe table states and single probes; they are
  not functions of the source.\<close>

subsection \<open>Variant A\<close>

text \<open>The occupied keys of a group, \<^verbatim>\<open>elements[0..n)\<close>; the number of comparisons a lookup
  of \<open>hash\<close> spends on the keys of a group before it reaches \<open>hash\<close> itself (on all of
  them when \<open>hash\<close> is not there); whether the group's marker bit for \<open>hash mod 8\<close> is
  set; whether the group has no room.\<close>

definition boost_group_keys :: "group \<Rightarrow> size_t list" where
  "boost_group_keys g = take (g_n g) (g_elements g)"

definition boost_group_cmps :: "group \<Rightarrow> size_t \<Rightarrow> nat" where
  "boost_group_cmps g hash =
     length (filter (\<lambda>x. reduced_hash x = reduced_hash hash)
               (takeWhile (\<lambda>x. x \<noteq> hash) (boost_group_keys g)))"

definition boost_group_marked :: "group \<Rightarrow> size_t \<Rightarrow> bool" where
  "boost_group_marked g hash = bit (g_overflow g) (unat (hash mod 8))"

definition boost_group_full :: "group \<Rightarrow> bool" where
  "boost_group_full g = (\<not> g_n g < boost_N)"

text \<open>Every group holds an array of 15 keys and a fill count of at most 15, as the
  type \<^verbatim>\<open>std::array<std::size_t,N>\<close> and the guard \<^verbatim>\<open>g.n<N\<close> of \<^verbatim>\<open>insert\<close> ensure.\<close>

definition boost_wf :: "boost_map \<Rightarrow> bool" where
  "boost_wf m = list_all (\<lambda>g. length (g_elements g) = boost_N \<and> g_n g \<le> boost_N) (groups m)"

text \<open>\<^verbatim>\<open>groups.size()-1\<close>, the mask both loops hand to the prober; the group a prober points
  at, and whether its position is inside the table.\<close>

abbreviation boost_mask :: "boost_map \<Rightarrow> size_t" where
  "boost_mask m \<equiv> of_nat (length (groups m)) - 1"

definition boost_group_at :: "boost_map \<Rightarrow> pow2_quadratic_prober \<Rightarrow> group" where
  "boost_group_at m pb = groups m ! unat (pb_get pb)"

definition boost_in_range :: "boost_map \<Rightarrow> pow2_quadratic_prober \<Rightarrow> bool" where
  "boost_in_range m pb = (unat (pb_get pb) < length (groups m))"

text \<open>What a lookup of \<open>key\<close> does at the group the prober points at: it goes on to
  the next probed group (no match, marker bit set), it returns not found (no match,
  marker bit clear), or it returns found (a match).\<close>

definition boost_passes :: "boost_map \<Rightarrow> size_t \<Rightarrow> pow2_quadratic_prober \<Rightarrow> bool" where
  "boost_passes m key pb =
     (boost_in_range m pb \<and> key \<notin> set (boost_group_keys (boost_group_at m pb))
      \<and> boost_group_marked (boost_group_at m pb) key)"

definition boost_absent_here :: "boost_map \<Rightarrow> size_t \<Rightarrow> pow2_quadratic_prober \<Rightarrow> bool" where
  "boost_absent_here m key pb =
     (boost_in_range m pb \<and> key \<notin> set (boost_group_keys (boost_group_at m pb))
      \<and> \<not> boost_group_marked (boost_group_at m pb) key)"

definition boost_found_here :: "boost_map \<Rightarrow> size_t \<Rightarrow> pow2_quadratic_prober \<Rightarrow> bool" where
  "boost_found_here m key pb =
     (boost_in_range m pb \<and> key \<in> set (boost_group_keys (boost_group_at m pb)))"

text \<open>The accounting after the lookup has passed the first \<open>j\<close> groups from \<open>pb\<close>.\<close>

fun boost_passed :: "nat \<Rightarrow> boost_map \<Rightarrow> size_t \<Rightarrow> pow2_quadratic_prober \<Rightarrow> find_info \<Rightarrow> find_info" where
  "boost_passed 0 m key pb info = info"
| "boost_passed (Suc j) m key pb info =
     boost_passed j m key (snd (pb_next pb (boost_mask m)))
       (info\<lparr>num_cmps := num_cmps info + boost_group_cmps (boost_group_at m pb) key,
             num_hops := num_hops info + 1\<rparr>)"

text \<open>An insertion walks past a group that is inside the table and has no room.\<close>

definition boost_walks_past :: "boost_map \<Rightarrow> pow2_quadratic_prober \<Rightarrow> bool" where
  "boost_walks_past m pb = (boost_in_range m pb \<and> boost_group_full (boost_group_at m pb))"

text \<open>A group, and a table, after some insertions compared with before: the fill count
  has not decreased, the keys stored before are still there, no marker bit has been
  cleared, and a full group is still full.\<close>

definition boost_group_le :: "group \<Rightarrow> group \<Rightarrow> bool" where
  "boost_group_le g g' =
     (g_n g \<le> g_n g'
      \<and> take (g_n g) (g_elements g') = take (g_n g) (g_elements g)
      \<and> length (g_elements g') = length (g_elements g)
      \<and> g_overflow g AND g_overflow g' = g_overflow g
      \<and> (g_n g = boost_N \<longrightarrow> g_n g' = boost_N)
      \<and> (g_n g \<le> boost_N \<longrightarrow> g_n g' \<le> boost_N))"

definition boost_le :: "boost_map \<Rightarrow> boost_map \<Rightarrow> bool" where
  "boost_le m m' = (shift m' = shift m \<and> list_all2 boost_group_le (groups m) (groups m'))"

text \<open>The two updates of the insertion loop: setting the marker bit of \<open>key\<close> on group
  \<open>i\<close>, and appending \<open>key\<close> to group \<open>i\<close>.\<close>

definition boost_mark :: "boost_map \<Rightarrow> nat \<Rightarrow> size_t \<Rightarrow> boost_map" where
  "boost_mark m i key =
     m\<lparr>groups := (groups m)
          [i := (groups m ! i)\<lparr>g_overflow := g_overflow (groups m ! i)
                                               OR push_bit (unat (key mod 8)) 1\<rparr>]\<rparr>"

definition boost_place :: "boost_map \<Rightarrow> nat \<Rightarrow> size_t \<Rightarrow> boost_map" where
  "boost_place m i key =
     m\<lparr>groups := (groups m)
          [i := (groups m ! i)\<lparr>g_elements := (g_elements (groups m ! i))
                                                 [g_n (groups m ! i) := key],
                                g_n := g_n (groups m ! i) + 1\<rparr>]\<rparr>"

text \<open>What the constructor and the insertions maintain beyond \<open>boost_wf\<close>: a marker
  bit is only ever set on a group without room, and \<^verbatim>\<open>shift\<close> is the value the constructor
  computes from the number of groups.\<close>

definition boost_marks_on_full :: "boost_map \<Rightarrow> bool" where
  "boost_marks_on_full m = list_all (\<lambda>g. g_overflow g \<noteq> 0 \<longrightarrow> boost_group_full g) (groups m)"

definition boost_inv :: "boost_map \<Rightarrow> bool" where
  "boost_inv m =
     (boost_wf m \<and> boost_marks_on_full m \<and> shift m = 64 - bit_width (unat (boost_mask m)))"

text \<open>The key is stored in no group.\<close>

definition boost_absent :: "boost_map \<Rightarrow> size_t \<Rightarrow> bool" where
  "boost_absent m key = list_all (\<lambda>g. key \<notin> set (boost_group_keys g)) (groups m)"

text \<open>The prober of a lookup or insertion of \<open>key\<close> after \<open>i\<close> advances from the home
  group \<^verbatim>\<open>hash >> shift\<close>.\<close>

definition boost_probe :: "boost_map \<Rightarrow> size_t \<Rightarrow> nat \<Rightarrow> pow2_quadratic_prober" where
  "boost_probe m key i = pb_advance i (boost_mask m) (prober_init (drop_bit (shift m) key))"

text \<open>A sequence of insertions; it stops at a fault and has no value when an insertion
  does not return.\<close>

fun boost_insert_all :: "boost_map \<Rightarrow> size_t list \<Rightarrow> (fault + boost_map) option" where
  "boost_insert_all m [] = Some (Inr m)"
| "boost_insert_all m (key # keys) =
     (case boost_insert m key of
        None \<Rightarrow> None
      | Some (Inl e) \<Rightarrow> Some (Inl e)
      | Some (Inr (m', b)) \<Rightarrow> boost_insert_all m' keys)"

subsection \<open>Variant B\<close>

text \<open>The 16 slots \<^verbatim>\<open>element_at(pos0), ..., element_at(pos0+15)\<close> in scan order; whether a
  slot is occupied by a key with the low 7 bits of \<open>hash\<close>; the number of comparisons a
  lookup of \<open>hash\<close> spends on a window: the slots before the first exact match (all 16
  when there is none) that are occupied with equal low 7 bits.\<close>

definition abseil_window :: "abseil_map \<Rightarrow> size_t \<Rightarrow> size_t option list" where
  "abseil_window m pos0 = map (\<lambda>i. abseil_element_at m (pos0 + of_nat i)) [0..<abseil_N]"

definition low7_match :: "size_t \<Rightarrow> size_t option \<Rightarrow> bool" where
  "low7_match hash slot =
     (case slot of None \<Rightarrow> False | Some x \<Rightarrow> x AND 0x7f = hash AND 0x7f)"

definition abseil_window_cmps :: "abseil_map \<Rightarrow> size_t \<Rightarrow> size_t \<Rightarrow> nat" where
  "abseil_window_cmps m pos0 hash =
     length (filter (low7_match hash)
               (takeWhile (\<lambda>s. s \<noteq> Some hash) (abseil_window m pos0)))"

text \<open>A table after some insertions compared with before: the same number of slots, and
  every occupied slot still holds its key.\<close>

definition abseil_le :: "abseil_map \<Rightarrow> abseil_map \<Rightarrow> bool" where
  "abseil_le m m' = list_all2 (\<lambda>s s'. s \<noteq> None \<longrightarrow> s' = s) (elements m) (elements m')"

text \<open>\<^verbatim>\<open>elements.size()/N-1\<close>, the mask handed to the prober.\<close>

abbreviation abseil_mask :: "abseil_map \<Rightarrow> size_t" where
  "abseil_mask m \<equiv> abseil_size m div of_nat abseil_N - 1"

fun abseil_insert_all :: "abseil_map \<Rightarrow> size_t list \<Rightarrow> (fault + abseil_map) option" where
  "abseil_insert_all m [] = Some (Inr m)"
| "abseil_insert_all m (key # keys) =
     (case abseil_insert m key of
        None \<Rightarrow> None
      | Some (Inl e) \<Rightarrow> Some (Inl e)
      | Some (Inr (m', b)) \<Rightarrow> abseil_insert_all m' keys)"

text \<open>The slot positions whose window of 16 slots has no empty slot.\<close>

definition abseil_full_window_starts :: "abseil_map \<Rightarrow> nat list" where
  "abseil_full_window_starts m =
     filter (\<lambda>q. None \<notin> set (abseil_window m (of_nat q))) [0..<length (elements m)]"

subsection \<open>Three properties as the specification words them\<close>

text \<open>The fraction of the \<open>capacity\<close> aligned windows, slots \<open>g*16 .. g*16+15\<close> for
  \<open>g = 0 .. capacity-1\<close>, that hold no empty slot.\<close>

definition spec_aligned_full_fraction :: "abseil_map \<Rightarrow> rat" where
  "spec_aligned_full_fraction m =
     (let capacity = length (elements m) div abseil_N
      in of_nat (length (filter (\<lambda>g. None \<notin> set (take abseil_N (drop (g * abseil_N) (elements m))))
                           [0..<capacity]))
         / of_nat capacity)"


text \<open>The occupied keys of a group with the reduced discriminant of the key, plus one
  when the key itself is found.\<close>

definition spec_boost_group_cmps :: "group \<Rightarrow> size_t \<Rightarrow> nat" where
  "spec_boost_group_cmps g hash =
     length (filter (\<lambda>x. reduced_hash x = reduced_hash hash) (boost_group_keys g))
     + (if hash \<in> set (boost_group_keys g) then 1 else 0)"

subsection \<open>Example tables\<close>

text \<open>Two groups. Keys below \<open>2^63\<close> have home group 0, the others home group 1.
  \<open>boost_example\<close>: the keys 1 to 15 fill group 0. \<open>boost_example_16\<close>: key 16 has been
  inserted as well; it found group 0 full, marked it and went to group 1.
  \<open>boost_full_example\<close>: both groups are full. \<open>boost_pair_example\<close>: the keys 2 and
  258, which share the low byte, in group 0.\<close>

definition boost_example :: boost_map where
  "boost_example =
     \<lparr>groups = [\<lparr>g_elements = [1, 2, 3, 4, 5, 6, 7, 8, 9, 10, 11, 12, 13, 14, 15],
                  g_n = 15, g_overflow = 0\<rparr>,
                 \<lparr>g_elements = [0, 0, 0, 0, 0, 0, 0, 0, 0, 0, 0, 0, 0, 0, 0],
                  g_n = 0, g_overflow = 0\<rparr>],
      shift = 63\<rparr>"

definition boost_example_16 :: boost_map where
  "boost_example_16 =
     \<lparr>groups = [\<lparr>g_elements = [1, 2, 3, 4, 5, 6, 7, 8, 9, 10, 11, 12, 13, 14, 15],
                  g_n = 15, g_overflow = 1\<rparr>,
                 \<lparr>g_elements = [16, 0, 0, 0, 0, 0, 0, 0, 0, 0, 0, 0, 0, 0, 0],
                  g_n = 1, g_overflow = 0\<rparr>],
      shift = 63\<rparr>"

definition boost_full_example :: boost_map where
  "boost_full_example =
     \<lparr>groups = [\<lparr>g_elements = [1, 2, 3, 4, 5, 6, 7, 8, 9, 10, 11, 12, 13, 14, 15],
                  g_n = 15, g_overflow = 0\<rparr>,
                 \<lparr>g_elements = [0x8000000000000001, 0x8000000000000002, 0x8000000000000003,
                                0x8000000000000004, 0x8000000000000005, 0x8000000000000006,
                                0x8000000000000007, 0x8000000000000008, 0x8000000000000009,
                                0x800000000000000A, 0x800000000000000B, 0x800000000000000C,
                                0x800000000000000D, 0x800000000000000E, 0x800000000000000F],
                  g_n = 15, g_overflow = 0\<rparr>],
      shift = 63\<rparr>"

definition boost_pair_example :: boost_map where
  "boost_pair_example =
     \<lparr>groups = [\<lparr>g_elements = [2, 258, 0, 0, 0, 0, 0, 0, 0, 0, 0, 0, 0, 0, 0],
                  g_n = 2, g_overflow = 0\<rparr>,
                 \<lparr>g_elements = [0, 0, 0, 0, 0, 0, 0, 0, 0, 0, 0, 0, 0, 0, 0],
                  g_n = 0, g_overflow = 0\<rparr>],
      shift = 63\<rparr>"

text \<open>32 slots. \<open>abseil_run_example\<close>: 16 keys with home position 8 occupy the slots 8
  to 23. \<open>abseil_gap_example\<close>: the key 643, with home position 5, alone.
  \<open>abseil_three_example\<close>: 48 slots, capacity 3, after the insertion of the keys 1 to 16,
  which all have home position 0.\<close>

definition abseil_run_example :: abseil_map where
  "abseil_run_example =
     \<lparr>elements = [None, None, None, None, None, None, None, None,
                   Some 1024, Some 1025, Some 1026, Some 1027, Some 1028, Some 1029, Some 1030,
                   Some 1031, Some 1032, Some 1033, Some 1034, Some 1035, Some 1036, Some 1037,
                   Some 1038, Some 1039,
                   None, None, None, None, None, None, None, None]\<rparr>"

definition abseil_gap_example :: abseil_map where
  "abseil_gap_example =
     \<lparr>elements = [None, None, None, None, None, Some 643, None, None,
                   None, None, None, None, None, None, None, None,
                   None, None, None, None, None, None, None, None,
                   None, None, None, None, None, None, None, None]\<rparr>"

definition abseil_three_example :: abseil_map where
  "abseil_three_example =
     \<lparr>elements = [Some 1, Some 2, Some 3, Some 4, Some 5, Some 6, Some 7, Some 8,
                   Some 9, Some 10, Some 11, Some 12, Some 13, Some 14, Some 15, Some 16,
                   None, None, None, None, None, None, None, None,
                   None, None, None, None, None, None, None, None,
                   None, None, None, None, None, None, None, None,
                   None, None, None, None, None, None, None, None]\<rparr>"

section \<open>Rounding to single precision\<close>

text \<open>The rounding is monotone on the numbers that are not negative, it maps only 0 to
  0, and it leaves \<open>k / 2^j\<close> as it is when \<open>k\<close> has at most 24 bits.\<close>

lemma bit_width_pos: "0 < n \<Longrightarrow> 0 < bit_width n"
  by (subst bit_width.simps) simp

lemma bit_width_bounds:
  "0 < n \<Longrightarrow> 2 ^ (bit_width n - 1) \<le> n \<and> n < 2 ^ bit_width n"
proof (induction n rule: bit_width.induct)
  case (1 x)
  have bw: "bit_width x = Suc (bit_width (x div 2))"
    using "1.prems" by (subst bit_width.simps) simp
  show ?case
  proof (cases "x div 2 = 0")
    case True
    then have b0: "bit_width (x div 2) = 0" by (simp add: bit_width.simps)
    from True "1.prems" have "x = 1" by (cases x) auto
    then show ?thesis unfolding bw b0 by simp
  next
    case False
    with "1.IH" "1.prems" have IH: "2 ^ (bit_width (x div 2) - 1) \<le> x div 2
        \<and> x div 2 < 2 ^ bit_width (x div 2)" by simp
    from False have "0 < bit_width (x div 2)" by (simp add: bit_width_pos)
    then obtain k where k: "bit_width (x div 2) = Suc k"
      by (cases "bit_width (x div 2)") auto
    from IH have "2 ^ k \<le> x div 2" "x div 2 < 2 * 2 ^ k" by (simp_all add: k)
    then have "2 * 2 ^ k \<le> x" "x < 2 * (2 * 2 ^ k)" by linarith+
    then show ?thesis by (simp add: bw k)
  qed
qed

lemma round_half_even_of_int [simp]: "round_half_even (of_int n) = n"
  by (simp add: round_half_even_def)

lemma round_half_even_bounds:
  "\<lfloor>y\<rfloor> \<le> round_half_even y" "round_half_even y \<le> \<lfloor>y\<rfloor> + 1"
  by (simp_all add: round_half_even_def Let_def)

lemma round_half_even_mono:
  assumes "a \<le> b"
  shows "round_half_even a \<le> round_half_even b"
proof (cases "\<lfloor>a\<rfloor> = \<lfloor>b\<rfloor>")
  case True
  then show ?thesis using assms by (auto simp: round_half_even_def Let_def)
next
  case False
  with assms have "\<lfloor>a\<rfloor> < \<lfloor>b\<rfloor>" using floor_mono [OF assms] by linarith
  then have "\<lfloor>a\<rfloor> + 1 \<le> \<lfloor>b\<rfloor>" by simp
  with round_half_even_bounds(2) [of a] round_half_even_bounds(1) [of b]
  show ?thesis by linarith
qed


lemma float_exponent_bounds:
  assumes "0 < x"
  shows "2 powi float_exponent x \<le> x \<and> x < 2 powi (float_exponent x + 1)"
proof (cases "1 \<le> x")
  case True
  define n where "n = nat \<lfloor>x\<rfloor>"
  from True have f1: "1 \<le> \<lfloor>x\<rfloor>" by simp
  then have n1: "0 < n" by (simp add: n_def)
  have nf: "(of_nat n :: rat) = of_int \<lfloor>x\<rfloor>" using f1 by (simp add: n_def)
  have nx: "of_nat n \<le> x" "x < of_nat n + 1" unfolding nf by linarith+
  from bit_width_bounds [OF n1]
  have b: "2 ^ (bit_width n - 1) \<le> n" "Suc n \<le> 2 ^ bit_width n" by simp_all
  have e: "float_exponent x = int (bit_width n - 1)"
    using True bit_width_pos [OF n1] by (simp add: float_exponent_def n_def)
  have e1: "float_exponent x + 1 = int (bit_width n)"
    using bit_width_pos [OF n1] by (simp add: e)
  have "(of_nat (2 ^ (bit_width n - 1)) :: rat) \<le> of_nat n" using b(1) by (simp only: of_nat_le_iff)
  then have "(2 :: rat) ^ (bit_width n - 1) \<le> of_nat n" by (simp only: of_nat_power of_nat_numeral)
  with nx(1) have "(2 :: rat) ^ (bit_width n - 1) \<le> x" by linarith
  then have l: "2 powi float_exponent x \<le> x" by (simp only: e power_int_of_nat)
  have "(of_nat (Suc n) :: rat) \<le> of_nat (2 ^ bit_width n)" using b(2) by (simp only: of_nat_le_iff)
  then have "(of_nat n :: rat) + 1 \<le> 2 ^ bit_width n"
    by (simp only: of_nat_power of_nat_numeral of_nat_Suc)
  with nx(2) have "x < (2 :: rat) ^ bit_width n" by linarith
  then have u: "x < 2 powi (float_exponent x + 1)" by (simp only: e1 power_int_of_nat)
  from l u show ?thesis ..
next
  case False
  with assms have x1: "x < 1" by simp
  define c where "c = nat \<lceil>1 / x\<rceil>"
  define k where "k = bit_width (c - 1)"
  from assms x1 have y1: "1 < 1 / x" by simp
  then have c2: "2 \<le> \<lceil>1 / x\<rceil>" by linarith
  then have cn: "(of_nat c :: rat) = of_int \<lceil>1 / x\<rceil>" by (simp add: c_def)
  have c1: "0 < c - 1" using c2 by (simp add: c_def)
  have cy: "1 / x \<le> of_nat c" "of_nat c - 1 < 1 / x" unfolding cn by linarith+
  from bit_width_bounds [OF c1]
  have b: "2 ^ (k - 1) \<le> c - 1" "c \<le> 2 ^ k" unfolding k_def using c1 by auto
  have kpos: "0 < k" unfolding k_def using c1 by (rule bit_width_pos)
  have e: "float_exponent x = - int k"
    using False by (simp add: float_exponent_def k_def c_def)
  have e1: "float_exponent x + 1 = - int (k - 1)" using kpos by (simp add: e)
  have "(of_nat c :: rat) \<le> of_nat (2 ^ k)" using b(2) by (simp only: of_nat_le_iff)
  then have "(of_nat c :: rat) \<le> 2 ^ k" by (simp only: of_nat_power of_nat_numeral)
  with cy(1) have "1 / x \<le> 2 ^ k" by linarith
  then have "1 \<le> 2 ^ k * x" using assms by (simp add: field_simps)
  then have l: "2 powi float_exponent x \<le> x"
    by (simp add: e power_int_minus field_simps)
  have "(of_nat (2 ^ (k - 1)) :: rat) \<le> of_nat (c - 1)" using b(1) by (simp only: of_nat_le_iff)
  then have "(2 :: rat) ^ (k - 1) \<le> of_nat (c - 1)" by (simp only: of_nat_power of_nat_numeral)
  moreover have "(of_nat (c - 1) :: rat) = of_nat c - 1" using c1 by (simp add: of_nat_diff)
  ultimately have "2 ^ (k - 1) < 1 / x" using cy(2) by linarith
  then have "2 ^ (k - 1) * x < 1" using assms by (simp add: field_simps)
  then have u: "x < 2 powi (float_exponent x + 1)"
    by (simp only: e1 power_int_minus power_int_of_nat) (simp add: field_simps)
  from l u show ?thesis ..
qed

lemma float_scaled_bounds:
  assumes "0 < x"
  shows "2 ^ 23 \<le> x / 2 powi (float_exponent x - 23)"
    and "x / 2 powi (float_exponent x - 23) \<le> 2 ^ 24"
proof -
  define p :: rat where "p = 2 powi float_exponent x"
  have p0: "0 < p" by (simp add: p_def)
  have u: "2 powi (float_exponent x - 23) = p / 2 ^ 23"
    by (simp add: p_def power_int_diff)
  have "2 powi (float_exponent x + 1) = p * 2"
    by (simp add: p_def power_int_add)
  with float_exponent_bounds [OF assms] have b: "p \<le> x" "x < p * 2" by (simp_all add: p_def)
  show "2 ^ 23 \<le> x / 2 powi (float_exponent x - 23)"
    using b(1) p0 by (simp add: u field_simps)
  show "x / 2 powi (float_exponent x - 23) \<le> 2 ^ 24"
    using b(2) p0 by (simp add: u field_simps)
qed

lemma float_round_pos:
  "0 < x \<Longrightarrow> float_round x
     = of_int (round_half_even (x / 2 powi (float_exponent x - 23)))
       * 2 powi (float_exponent x - 23)"
  by (simp add: float_round_def Let_def)

lemma float_round_zero [simp]: "float_round 0 = 0"
  by (simp add: float_round_def)

lemma float_round_bounds:
  assumes "0 < x"
  shows "2 powi float_exponent x \<le> float_round x"
    and "float_round x \<le> 2 powi (float_exponent x + 1)"
proof -
  let ?u = "2 powi (float_exponent x - 23) :: rat"
  have u0: "0 < ?u" by simp
  have "round_half_even (of_int (2 ^ 23)) \<le> round_half_even (x / ?u)"
    using float_scaled_bounds(1) [OF assms] by (intro round_half_even_mono) simp
  then have "(2 :: int) ^ 23 \<le> round_half_even (x / ?u)" by (simp only: round_half_even_of_int)
  then have "(of_int (2 ^ 23) :: rat) \<le> of_int (round_half_even (x / ?u))"
    by (simp only: of_int_le_iff)
  then have "2 ^ 23 * ?u \<le> of_int (round_half_even (x / ?u)) * ?u"
    using u0 by (simp add: mult_right_mono)
  moreover have "2 ^ 23 * ?u = 2 powi float_exponent x"
    by (simp add: power_int_diff)
  ultimately show "2 powi float_exponent x \<le> float_round x"
    by (simp only: float_round_pos [OF assms])
  have "round_half_even (x / ?u) \<le> round_half_even (of_int (2 ^ 24))"
    using float_scaled_bounds(2) [OF assms] by (intro round_half_even_mono) simp
  then have "round_half_even (x / ?u) \<le> (2 :: int) ^ 24" by (simp only: round_half_even_of_int)
  then have "(of_int (round_half_even (x / ?u)) :: rat) \<le> of_int (2 ^ 24)"
    by (simp only: of_int_le_iff)
  then have "of_int (round_half_even (x / ?u)) * ?u \<le> 2 ^ 24 * ?u"
    using u0 by (simp add: mult_right_mono)
  moreover have "2 ^ 24 * ?u = 2 powi (float_exponent x + 1)"
    by (simp add: power_int_diff power_int_add)
  ultimately show "float_round x \<le> 2 powi (float_exponent x + 1)"
    by (simp only: float_round_pos [OF assms])
qed

lemma float_round_nonneg: "0 \<le> x \<Longrightarrow> 0 \<le> float_round x"
proof (cases "x = 0")
  case False
  assume "0 \<le> x"
  with False have "0 < x" by simp
  moreover have "(0 :: rat) < 2 powi float_exponent x" by simp
  ultimately show ?thesis using float_round_bounds(1) [of x] by linarith
qed simp

lemma float_round_eq_0_iff: "0 \<le> x \<Longrightarrow> float_round x = 0 \<longleftrightarrow> x = 0"
proof (cases "x = 0")
  case False
  assume "0 \<le> x"
  with False have "0 < x" by simp
  moreover have "(0 :: rat) < 2 powi float_exponent x" by simp
  ultimately have "0 < float_round x" using float_round_bounds(1) [of x] by linarith
  with False show ?thesis by simp
qed simp

lemma float_exponent_mono:
  assumes "0 < x" and "x \<le> y"
  shows "float_exponent x \<le> float_exponent y"
proof (rule ccontr)
  assume "\<not> float_exponent x \<le> float_exponent y"
  then have "float_exponent y + 1 \<le> float_exponent x" by simp
  then have "(2 :: rat) powi (float_exponent y + 1) \<le> 2 powi float_exponent x"
    by (rule power_int_increasing) simp
  moreover from assms have "0 < y" by simp
  ultimately show False
    using float_exponent_bounds [OF assms(1)] float_exponent_bounds [OF \<open>0 < y\<close>] assms(2)
    by linarith
qed

lemma float_round_mono:
  assumes "0 \<le> x" and "x \<le> y"
  shows "float_round x \<le> float_round y"
proof (cases "x = 0")
  case True
  with assms float_round_nonneg [of y] show ?thesis by simp
next
  case False
  with assms have x0: "0 < x" and y0: "0 < y" by simp_all
  from float_exponent_mono [OF x0 assms(2)]
  consider "float_exponent x = float_exponent y" | "float_exponent x + 1 \<le> float_exponent y"
    by linarith
  then show ?thesis
  proof cases
    case 1
    let ?u = "2 powi (float_exponent y - 23) :: rat"
    have u0: "0 < ?u" by simp
    have "x / ?u \<le> y / ?u" using assms(2) u0 by (simp add: divide_right_mono)
    then have "round_half_even (x / ?u) \<le> round_half_even (y / ?u)"
      by (rule round_half_even_mono)
    then have "(of_int (round_half_even (x / ?u)) :: rat) \<le> of_int (round_half_even (y / ?u))"
      by (simp only: of_int_le_iff)
    then have "of_int (round_half_even (x / ?u)) * ?u \<le> of_int (round_half_even (y / ?u)) * ?u"
      using u0 by (simp add: mult_right_mono)
    then show ?thesis by (simp only: float_round_pos [OF x0] float_round_pos [OF y0] 1)
  next
    case 2
    then have "(2 :: rat) powi (float_exponent x + 1) \<le> 2 powi float_exponent y"
      by (rule power_int_increasing) simp
    with float_round_bounds(2) [OF x0] float_round_bounds(1) [OF y0]
    show ?thesis by linarith
  qed
qed

lemma float_round_exact:
  assumes "0 < x" and "x / 2 powi (float_exponent x - 23) = of_int z"
  shows "float_round x = x"
proof -
  let ?u = "2 powi (float_exponent x - 23) :: rat"
  have u0: "?u \<noteq> 0" by simp
  have "float_round x = of_int z * ?u"
    by (simp only: float_round_pos [OF assms(1)] assms(2) round_half_even_of_int)
  also have "\<dots> = x / ?u * ?u" by (simp only: assms(2))
  also have "\<dots> = x" using u0 by simp
  finally show ?thesis .
qed

lemma float_round_dyadic:
  assumes "k < 2 ^ 24"
  shows "float_round (of_nat k / 2 ^ j) = of_nat k / 2 ^ j"
proof (cases "k = 0")
  case False
  let ?x = "of_nat k / 2 ^ j :: rat"
  let ?e = "float_exponent ?x"
  from False have x0: "0 < ?x" by simp
  have "2 powi ?e \<le> ?x" using float_exponent_bounds [OF x0] by simp
  then have "2 powi ?e * 2 ^ j \<le> (of_nat k :: rat)" by (simp add: field_simps)
  then have "2 powi (?e + int j) \<le> (of_nat k :: rat)" by (simp add: power_int_add)
  also have "(of_nat k :: rat) < of_nat (2 ^ 24)" using assms by (simp only: of_nat_less_iff)
  finally have "(2 :: rat) powi (?e + int j) < 2 powi 24" by simp
  then have "?e + int j < 24" by (rule power_int_le_imp_less_exp [rotated]) simp_all
  then have "0 \<le> 23 - ?e - int j" by simp
  from zero_le_imp_eq_int [OF this] obtain d where d: "23 - ?e - int j = int d" by blast
  have "?x / 2 powi (?e - 23) = of_nat k * 2 powi (23 - ?e - int j)"
    by (simp add: power_int_diff power_int_add field_simps)
  also have "\<dots> = of_int (int k * 2 ^ d)" by (simp add: d)
  finally show ?thesis by (rule float_round_exact [OF x0])
qed simp

text \<open>The quotient \<^verbatim>\<open>float(x)/n\<close>: not finite exactly for \<open>n = 0\<close>, monotone in \<open>x\<close>, and
  exact when the divisor is a power of two and both operands have fewer than 25 bits.\<close>

lemma float_div_zero: "float_div x 0 = NotFinite"
  by (simp add: float_div_def)

lemma float_div_eq:
  "0 < n \<Longrightarrow>
     float_div x n = Finite (float_round (float_round (of_nat x) / float_round (of_nat n)))"
  by (simp add: float_div_def Let_def float_round_eq_0_iff)

lemma float_div_mono:
  assumes "x \<le> y" and "0 < n"
  shows "\<exists>p q. float_div x n = Finite p \<and> float_div y n = Finite q \<and> p \<le> q"
proof -
  have a: "float_round (of_nat x) \<le> float_round (of_nat y)"
    using assms(1) by (intro float_round_mono) simp_all
  have b: "0 \<le> float_round (of_nat n)" by (intro float_round_nonneg) simp
  have c: "0 \<le> float_round (of_nat x)" by (intro float_round_nonneg) simp
  have "float_round (of_nat x) / float_round (of_nat n)
          \<le> float_round (of_nat y) / float_round (of_nat n)"
    using a b by (rule divide_right_mono)
  moreover have "0 \<le> float_round (of_nat x) / float_round (of_nat n)" using b c by simp
  ultimately have "float_round (float_round (of_nat x) / float_round (of_nat n))
          \<le> float_round (float_round (of_nat y) / float_round (of_nat n))"
    by (intro float_round_mono)
  then show ?thesis by (simp add: float_div_eq [OF assms(2)])
qed

lemma float_div_exact:
  assumes "x < 2 ^ 24" and "j < 24"
  shows "float_div x (2 ^ j) = Finite (of_nat x / 2 ^ j)"
proof -
  have "(2 :: nat) ^ j < 2 ^ 24" using assms(2) by (intro power_strict_increasing) simp_all
  from float_round_dyadic [OF this, of 0]
  have n: "float_round (2 ^ j) = 2 ^ j" by simp
  from float_round_dyadic [OF assms(1), of 0]
  have a: "float_round (of_nat x) = of_nat x" by simp
  show ?thesis
    by (simp add: float_div_def Let_def n a float_round_dyadic [OF assms(1)])
qed

section \<open>The probe sequence\<close>

lemma pb_next_simps [simp]:
  "fst (pb_next pb msk) = (step pb + 1 \<le> msk)"
  "pos (snd (pb_next pb msk)) = (pos pb + (step pb + 1)) AND msk"
  "step (snd (pb_next pb msk)) = step pb + 1"
  by (simp_all add: pb_next_def Let_def)

lemma step_pb_advance: "step (pb_advance i msk pb) = step pb + of_nat i"
  by (induction i arbitrary: pb) simp_all

lemma pb_advance_Suc: "pb_advance (Suc i) msk pb = snd (pb_next (pb_advance i msk pb) msk)"
  by (induction i arbitrary: pb) simp_all

lemma tri_double: "2 * tri i = i * (i + 1)"
  by (induction i) simp_all

lemma tri_mono: "i \<le> j \<Longrightarrow> tri i \<le> tri j"
  by (induction j) (auto simp: le_Suc_eq)

lemma tri_diff:
  assumes "i \<le> j"
  shows "2 * (tri j - tri i) = (j - i) * (j + i + 1)"
proof -
  obtain d where j: "j = i + d" using assms le_Suc_ex by blast
  have "2 * (tri j - tri i) = 2 * tri j - 2 * tri i" by simp
  also have "\<dots> = j * (j + 1) - i * (i + 1)" by (simp only: tri_double)
  also have "\<dots> = (i + d) * (i + d + 1) - i * (i + 1)" by (simp only: j)
  also have "\<dots> = d * (i + d + i + 1)" by (simp add: algebra_simps)
  also have "\<dots> = (j - i) * (j + i + 1)" by (simp add: j)
  finally show ?thesis .
qed

text \<open>Two triangular numbers with indices below \<open>2^k\<close> differ modulo \<open>2^k\<close>: twice
  their difference is \<open>(j - i) * (j + i + 1)\<close>, one factor is odd and the other is
  positive and smaller than \<open>2^(k+1)\<close>.\<close>

lemma tri_not_dvd:
  assumes "i < j" "j < 2 ^ k"
  shows "\<not> 2 ^ k dvd tri j - tri i"
proof
  assume "(2::nat) ^ k dvd tri j - tri i"
  then have "2 * (2::nat) ^ k dvd 2 * (tri j - tri i)" by simp
  then have dv: "(2::nat) ^ Suc k dvd (j - i) * (j + i + 1)"
    using assms(1) by (simp add: tri_diff)
  have lt1: "j + i + 1 < 2 ^ Suc k" using assms by simp
  have lt2: "j - i < 2 ^ Suc k" "0 < j - i" using assms by simp_all
  show False
  proof (cases "odd (j - i)")
    case True
    then have "coprime ((2::nat) ^ Suc k) (j - i)" by simp
    then have "(2::nat) ^ Suc k dvd j + i + 1"
      using dv coprime_dvd_mult_right_iff by blast
    then show False using lt1 by (meson dvd_imp_le leD add_gr_0 zero_less_one)
  next
    case False
    then have "odd (j + i + 1)" using assms(1) by auto
    then have "coprime ((2::nat) ^ Suc k) (j + i + 1)" by simp
    then have "(2::nat) ^ Suc k dvd j - i"
      using dv coprime_dvd_mult_left_iff by blast
    then show False using lt2 by (meson dvd_imp_le leD)
  qed
qed

lemma uint_mask_64: "k \<le> 64 \<Longrightarrow> uint (mask k :: size_t) = 2 ^ k - 1"
  by (simp add: uint_mask_eq min_absorb2 mask_int_def)

lemma unat_mask_64: "k \<le> 64 \<Longrightarrow> unat (mask k :: size_t) = 2 ^ k - 1"
proof -
  assume k: "k \<le> 64"
  have "int (unat (mask k :: size_t)) = int (2 ^ k - 1)"
    using uint_mask_64 [OF k] by (simp add: of_nat_diff)
  then show ?thesis by (simp only: of_nat_eq_iff)
qed

lemma le_mask_iff_unat: "k \<le> 64 \<Longrightarrow> (w \<le> (mask k :: size_t)) = (unat w < 2 ^ k)"
proof -
  assume k: "k \<le> 64"
  have "0 < (2::nat) ^ k" by simp
  then show ?thesis unfolding word_le_nat_alt unat_mask_64 [OF k] by linarith
qed

lemma unat_and_mask: "unat (w AND mask k :: size_t) = unat w mod 2 ^ k"
  by (simp add: take_bit_eq_mask [symmetric] unsigned_take_bit_eq take_bit_nat_def)

lemma pos_pb_advance:
  "pos (pb_advance i (mask k) pb) AND mask k
     = (pos pb + of_nat i * step pb + of_nat (tri i)) AND mask k"
proof (induction i arbitrary: pb)
  case 0
  show ?case by simp
next
  case (Suc i)
  let ?pb = "snd (pb_next pb (mask k))"
  have "pos (pb_advance (Suc i) (mask k) pb) AND mask k
        = (pos ?pb + of_nat i * step ?pb + of_nat (tri i)) AND mask k"
    using Suc.IH [of ?pb] by simp
  also have "\<dots> = (((pos pb + (step pb + 1)) AND mask k)
                     + (of_nat i * (step pb + 1) + of_nat (tri i))) AND mask k"
    by (simp add: add.assoc)
  also have "\<dots> = ((pos pb + (step pb + 1))
                     + (of_nat i * (step pb + 1) + of_nat (tri i))) AND mask k"
    by (rule mask_eqs(1))
  also have "(pos pb + (step pb + 1)) + (of_nat i * (step pb + 1) + of_nat (tri i))
       = pos pb + of_nat (Suc i) * step pb + of_nat (tri (Suc i))"
    by (simp add: distrib_left distrib_right)
  finally show ?case .
qed

lemma pos_pb_advance_masked:
  "0 < i \<Longrightarrow> pos (pb_advance i msk pb) AND msk = pos (pb_advance i msk pb)"
proof (induction i arbitrary: pb)
  case 0
  then show ?case by simp
next
  case (Suc i)
  show ?case
  proof (cases i)
    case 0
    then show ?thesis by (simp add: and.assoc)
  next
    case (Suc i')
    then show ?thesis using Suc.IH [of "snd (pb_next pb msk)"] by simp
  qed
qed

lemma probe_positions_eq:
  "probe_positions n msk pb = map (\<lambda>i. pb_get (pb_advance i msk pb)) [0..<Suc n]"
proof (induction n arbitrary: pb)
  case 0
  show ?case by simp
next
  case (Suc n)
  have "[0..<Suc (Suc n)] = 0 # [Suc 0..<Suc (Suc n)]"
    by (rule upt_conv_Cons) simp
  also have "[Suc 0..<Suc (Suc n)] = map Suc [0..<Suc n]"
    by (rule map_Suc_upt [symmetric])
  finally have "[0..<Suc (Suc n)] = 0 # map Suc [0..<Suc n]" .
  then show ?case using Suc.IH by (simp add: comp_def del: upt_Suc)
qed

text \<open>From a start inside the table, the \<open>i\<close>-th position is the start plus the
  \<open>i\<close>-th triangular number, reduced to the table.\<close>

lemma probe_pos_init:
  assumes "start \<le> mask k" "k \<le> 64"
  shows "pos (pb_advance i (mask k) (prober_init start)) = (start + of_nat (tri i)) AND mask k"
proof -
  have m: "pos (pb_advance i (mask k) (prober_init start)) AND mask k
             = pos (pb_advance i (mask k) (prober_init start))"
  proof (cases i)
    case 0
    have "start AND mask k = start"
      using assms by (simp add: mask_eq_iff uint_mask_64 word_le_def)
    then show ?thesis using 0 by (simp add: prober_init_def)
  next
    case (Suc j)
    then show ?thesis by (simp only: pos_pb_advance_masked zero_less_Suc)
  qed
  have "pos (pb_advance i (mask k) (prober_init start))
          = pos (pb_advance i (mask k) (prober_init start)) AND mask k"
    by (rule m [symmetric])
  also have "\<dots> = (start + of_nat (tri i)) AND mask k"
    using pos_pb_advance [of i k "prober_init start"] by (simp add: prober_init_def)
  finally show ?thesis .
qed

lemma start_tri_inj:
  assumes k: "k \<le> 64" and ij: "i < j" "j < 2 ^ k"
  shows "(start + of_nat (tri i) :: size_t) AND mask k \<noteq> (start + of_nat (tri j)) AND mask k"
proof
  assume eq: "(start + of_nat (tri i) :: size_t) AND mask k = (start + of_nat (tri j)) AND mask k"
  have d: "(2::nat) ^ k dvd 2 ^ 64" using k by (rule le_imp_power_dvd)
  have u: "unat ((start + of_nat t :: size_t) AND mask k) = (unat start + t) mod 2 ^ k" for t
  proof -
    have "unat ((start + of_nat t :: size_t) AND mask k)
            = ((unat start + t mod 2 ^ 64) mod 2 ^ 64) mod 2 ^ k"
      by (simp add: unat_and_mask unat_word_ariths unat_of_nat)
    also have "\<dots> = ((unat start + t) mod 2 ^ 64) mod 2 ^ k"
      by (simp only: mod_add_right_eq)
    also have "\<dots> = (unat start + t) mod 2 ^ k" using d by (rule mod_mod_cancel)
    finally show ?thesis .
  qed
  from eq have "(unat start + tri j) mod 2 ^ k = (unat start + tri i) mod 2 ^ k"
    by (simp only: u [symmetric])
  moreover have "unat start + tri i \<le> unat start + tri j"
    using ij(1) by (simp add: tri_mono)
  ultimately have "(2::nat) ^ k dvd (unat start + tri j) - (unat start + tri i)"
    by (simp only: mod_eq_dvd_iff_nat)
  then have "(2::nat) ^ k dvd tri j - tri i" by simp
  with tri_not_dvd [OF ij] show False by simp
qed

lemma probe_positions_init:
  assumes "k \<le> 64" and "start \<le> mask k"
  shows "probe_positions (unat (mask k :: size_t)) (mask k) (prober_init start)
       = map (\<lambda>i. (start + of_nat (tri i)) AND mask k) [0..<2 ^ k]"
proof -
  have n: "Suc (unat (mask k :: size_t)) = 2 ^ k" using assms(1) by (simp add: unat_mask_64)
  show ?thesis
    unfolding probe_positions_eq n using assms by (simp add: pb_get_def probe_pos_init)
qed

lemma probe_tri_inj_on:
  assumes "k \<le> 64"
  shows "inj_on (\<lambda>i. (start + of_nat (tri i) :: size_t) AND mask k) {0..<2 ^ k}"
proof (rule inj_onI)
  let ?f = "\<lambda>i. (start + of_nat (tri i) :: size_t) AND mask k"
  fix i j assume "i \<in> {0..<2 ^ k}" "j \<in> {0..<2 ^ k}" and eq: "?f i = ?f j"
  then have b: "i < 2 ^ k" "j < 2 ^ k" by simp_all
  show "i = j"
  proof (rule ccontr)
    assume "i \<noteq> j"
    then consider "i < j" | "j < i" by linarith
    then show False
    proof cases
      case 1
      with start_tri_inj [OF assms 1 b(2), of start] eq show False by simp
    next
      case 2
      with start_tri_inj [OF assms 2 b(1), of start] eq show False by simp
    qed
  qed
qed

text \<open>The first \<open>2^k\<close> positions reach every slot index of a table of \<open>2^k\<close> slots.\<close>

lemma probe_reaches_every_index:
  assumes k: "k \<le> 64" and w: "w \<le> (mask k :: size_t)"
  shows "\<exists>i<2 ^ k. (start + of_nat (tri i)) AND mask k = w"
proof -
  let ?f = "\<lambda>i. unat ((start + of_nat (tri i) :: size_t) AND mask k)"
  have inj: "inj_on ?f {0..<2 ^ k}"
    using probe_tri_inj_on [OF k, of start] by (simp add: inj_on_def word_unat_eq_iff)
  have "?f ` {0..<2 ^ k} = {0..<2 ^ k}"
  proof (rule card_subset_eq)
    show "finite {0..<(2::nat) ^ k}" by simp
    show "?f ` {0..<2 ^ k} \<subseteq> {0..<2 ^ k}" by (auto simp: unat_and_mask)
    show "card (?f ` {0..<2 ^ k}) = card {0..<(2::nat) ^ k}"
      using inj by (rule card_image)
  qed
  moreover have "unat w \<in> {0..<2 ^ k}" using w k by (simp add: le_mask_iff_unat)
  ultimately have "unat w \<in> ?f ` {0..<2 ^ k}" by (simp only:)
  then obtain i where "i \<in> {0..<2 ^ k}" "unat w = ?f i" by (rule imageE)
  then have "i < 2 ^ k" "(start + of_nat (tri i)) AND mask k = w"
    by (simp_all add: word_unat_eq_iff)
  then show ?thesis by blast
qed

text \<open>
  \<^bold>\<open>C1.\<close> For a table of \<open>2^k\<close> slots (mask \<open>2^k - 1\<close>) and a start inside the table, the
  start position followed by the positions after each of the first \<open>mask\<close> advances
  are \<open>2^k\<close> positions without a repetition, and they are exactly the slot indices
  \<open>0..mask\<close>.
\<close>

theorem probe_sequence_is_permutation:
  assumes "k \<le> 64" and "start \<le> mask k"
  shows "distinct (probe_positions (unat (mask k :: size_t)) (mask k) (prober_init start))
       \<and> set (probe_positions (unat (mask k :: size_t)) (mask k) (prober_init start))
           = {w. w \<le> mask k}
       \<and> length (probe_positions (unat (mask k :: size_t)) (mask k) (prober_init start))
           = 2 ^ k"
proof -
  let ?ps = "probe_positions (unat (mask k :: size_t)) (mask k) (prober_init start)"
  note ps = probe_positions_init [OF assms]
  have dist: "distinct ?ps"
    unfolding ps using probe_tri_inj_on [OF assms(1), of start] by (simp add: distinct_map)
  have len: "length ?ps = 2 ^ k" unfolding ps by simp
  have sub: "set ?ps \<subseteq> {w. w \<le> mask k}"
    unfolding ps by (auto simp: word_and_le1)
  have "{w. w \<le> mask k} \<subseteq> set ?ps"
  proof
    fix w :: size_t assume "w \<in> {w. w \<le> mask k}"
    then obtain i where "i < 2 ^ k" "(start + of_nat (tri i)) AND mask k = w"
      using probe_reaches_every_index [OF assms(1), of w start] by auto
    then show "w \<in> set ?ps" unfolding ps by auto
  qed
  with sub dist len show ?thesis by auto
qed

theorem probe_sequence_is_permutation_witness:
  "(2::nat) \<le> 64 \<and> (1::size_t) \<le> mask 2
   \<and> probe_positions (unat (mask 2 :: size_t)) (mask 2) (prober_init 1) = [1, 2, 0, 3]
   \<and> distinct (probe_positions (unat (mask 2 :: size_t)) (mask 2) (prober_init 1))
   \<and> set (probe_positions (unat (mask 2 :: size_t)) (mask 2) (prober_init 1))
       = {w. w \<le> mask 2}"
proof -
  have m: "mask 2 = (3 :: size_t)" by (simp add: mask_eq_exp_minus_1)
  have h: "(1::size_t) \<le> mask 2" by (simp add: m)
  have u: "unat (mask 2 :: size_t) = Suc (Suc (Suc 0))" by (simp add: m)
  have e: "probe_positions (unat (mask 2 :: size_t)) (mask 2) (prober_init 1) = [1, 2, 0, 3]"
    unfolding u by (simp add: m prober_init_def pb_get_def)
  show ?thesis
    using probe_sequence_is_permutation [of 2 1] h e by simp
qed

text \<open>The boolean of the \<open>(i+1)\<close>-th advance of a prober started at step 0.\<close>

lemma pb_next_after_advances:
  assumes "Suc i < 2 ^ 64"
  shows "fst (pb_next (pb_advance i msk (prober_init start)) msk) = (Suc i \<le> unat msk)"
proof -
  let ?pb = "pb_advance i msk (prober_init start)"
  have s: "step ?pb + 1 = (of_nat (Suc i) :: size_t)"
    by (simp add: step_pb_advance prober_init_def)
  have u: "unat (of_nat (Suc i) :: size_t) = Suc i"
    using assms by (simp only: unat_of_nat) simp
  have "fst (pb_next ?pb msk) = (step ?pb + 1 \<le> msk)" by simp
  also have "\<dots> = (unat (of_nat (Suc i) :: size_t) \<le> unat msk)"
    by (simp only: s word_le_nat_alt)
  also have "\<dots> = (Suc i \<le> unat msk)" by (simp only: u)
  finally show ?thesis .
qed

lemma unat_less_max_64:
  assumes "msk \<noteq> (- 1 :: size_t)"
  shows "Suc (unat msk) < 2 ^ 64"
proof -
  have "unat msk < 2 ^ 64" using unsigned_less [of msk] by simp
  moreover have "unat msk \<noteq> 2 ^ 64 - 1"
  proof
    assume "unat msk = 2 ^ 64 - 1"
    moreover have "unat (- 1 :: size_t) = 2 ^ 64 - 1" by (simp add: unsigned_minus_1_eq_mask mask_eq_exp_minus_1)
    ultimately have "unat msk = unat (- 1 :: size_t)" by simp
    then have "msk = - 1" by (simp only: word_unat_eq_iff)
    with assms show False by simp
  qed
  ultimately show ?thesis by simp
qed

text \<open>The claim as the specification words it: the returned boolean is true exactly
  when the step count has exceeded the mask. With mask 1, the first advance returns
  true although the step count, 1, has not exceeded the mask.\<close>

theorem pb_next_returns_true_before_cycle_end:
  "fst (pb_next (prober_init 0) 1) \<noteq> (1 < step (snd (pb_next (prober_init 0) 1)))"
  by (simp add: prober_init_def)

text \<open>
  \<^bold>\<open>C6 (amended).\<close> For every mask and every generator state, the advance operation
  increments the step counter (modulo \<open>2^64\<close>), sets the position to
  \<open>(previous + incremented step) & mask\<close>, and returns true exactly when the incremented
  step count is still at most the mask, that is, while the cycle is not yet complete.
  For a generator started at step 0, each of the first \<open>mask\<close> advances returns true; the
  \<open>(mask+1)\<close>-th returns false when the mask is below \<open>2^64 - 1\<close>, and with the mask
  \<open>2^64 - 1\<close> every advance returns true.
\<close>

theorem pb_next_reports_cycle_not_complete:
  "step (snd (pb_next pb msk)) = step pb + 1
   \<and> pos (snd (pb_next pb msk)) = (pos pb + (step pb + 1)) AND msk
   \<and> fst (pb_next pb msk) = (step (snd (pb_next pb msk)) \<le> msk)
   \<and> (i < unat msk \<longrightarrow> fst (pb_next (pb_advance i msk (prober_init start)) msk))
   \<and> (msk \<noteq> - 1 \<longrightarrow> \<not> fst (pb_next (pb_advance (unat msk) msk (prober_init start)) msk))
   \<and> (msk = - 1 \<longrightarrow> fst (pb_next pb msk))"
proof -
  have A: "fst (pb_next (pb_advance i msk (prober_init start)) msk)" if "i < unat msk"
  proof -
    have "unat msk < 2 ^ 64" using unsigned_less [of msk] by simp
    with that have "Suc i < 2 ^ 64" by simp
    from pb_next_after_advances [OF this, of msk start] that show ?thesis by simp
  qed
  have B: "\<not> fst (pb_next (pb_advance (unat msk) msk (prober_init start)) msk)"
    if "msk \<noteq> - 1"
    using pb_next_after_advances [OF unat_less_max_64 [OF that], of msk start] by simp
  have C: "fst (pb_next pb msk)" if "msk = - 1"
    using that by simp
  from A B C show ?thesis by simp
qed

theorem pb_next_reports_cycle_not_complete_witness:
  "pb_next \<lparr>pos = 2, step = 5\<rparr> 7 = (True, \<lparr>pos = 0, step = 6\<rparr>)
   \<and> (2 :: nat) < unat (3 :: size_t) \<and> (3 :: size_t) \<noteq> - 1
   \<and> fst (pb_next (pb_advance 2 3 (prober_init 1)) 3)
   \<and> \<not> fst (pb_next (pb_advance (unat (3 :: size_t)) 3 (prober_init 1)) 3)
   \<and> fst (pb_next \<lparr>pos = 2, step = - 1\<rparr> (- 1))"
proof -
  have h: "(2 :: nat) < unat (3 :: size_t)" by simp
  have n: "(3 :: size_t) \<noteq> - 1" by simp
  have a: "fst (pb_next (pb_advance 2 3 (prober_init 1)) 3)"
    using pb_next_reports_cycle_not_complete [of _ 3 2 1] h by blast
  have b: "\<not> fst (pb_next (pb_advance (unat (3 :: size_t)) 3 (prober_init 1)) 3)"
    using pb_next_reports_cycle_not_complete [of _ 3 _ 1] n by blast
  have c: "fst (pb_next \<lparr>pos = 2, step = - 1\<rparr> (- 1))"
    using pb_next_reports_cycle_not_complete [of "\<lparr>pos = 2, step = - 1\<rparr>" "- 1"] by blast
  have d: "pb_next \<lparr>pos = 2, step = 5\<rparr> 7 = (True, \<lparr>pos = 0, step = 6\<rparr>)"
    by (simp add: pb_next_def)
  show ?thesis using a b c d h n by simp
qed

section \<open>Variant A: lookups and insertions along the probe sequence\<close>

lemma std_find_eq:
  "last' \<le> length xs \<Longrightarrow>
   std_find xs first last' x = first + length (takeWhile (\<lambda>y. y \<noteq> x) (drop first (take last' xs)))"
proof (induction xs first last' x rule: std_find.induct)
  case (1 xs first last' x)
  show ?case
  proof (cases "first < last'")
    case True
    then have d: "drop first (take last' xs) = xs ! first # drop (Suc first) (take last' xs)"
      using "1.prems" by (simp add: Cons_nth_drop_Suc [symmetric])
    show ?thesis
      using True "1.IH" "1.prems" by (subst std_find.simps) (simp add: d)
  next
    case False
    then show ?thesis by (subst std_find.simps) simp
  qed
qed

lemma std_count_if_eq:
  "last' \<le> length xs \<Longrightarrow>
   std_count_if xs first last' p = length (filter p (drop first (take last' xs)))"
proof (induction xs first last' p rule: std_count_if.induct)
  case (1 xs first last' p)
  show ?case
  proof (cases "first < last'")
    case True
    then have d: "drop first (take last' xs) = xs ! first # drop (Suc first) (take last' xs)"
      using "1.prems" by (simp add: Cons_nth_drop_Suc [symmetric])
    show ?thesis
      using True "1.IH" "1.prems" by (subst std_count_if.simps) (simp add: d)
  next
    case False
    then show ?thesis by (subst std_count_if.simps) simp
  qed
qed

lemma std_find_keys:
  assumes "n \<le> length xs"
  shows "std_find xs 0 n x = length (takeWhile (\<lambda>y. y \<noteq> x) (take n xs))"
    and "(std_find xs 0 n x \<noteq> n) = (x \<in> set (take n xs))"
    and "std_count_if xs 0 (std_find xs 0 n x) p
           = length (filter p (takeWhile (\<lambda>y. y \<noteq> x) (take n xs)))"
proof -
  let ?ys = "take n xs"
  let ?it = "length (takeWhile (\<lambda>y. y \<noteq> x) ?ys)"
  show it: "std_find xs 0 n x = ?it" using assms by (simp add: std_find_eq min_def)
  have len: "length ?ys = n" using assms by simp
  have "(?it = length ?ys) = (\<forall>y\<in>set ?ys. y \<noteq> x)"
  proof
    assume e: "?it = length ?ys"
    have "takeWhile (\<lambda>y. y \<noteq> x) ?ys = take ?it ?ys" by (rule takeWhile_eq_take)
    also have "\<dots> = ?ys" by (simp only: e take_all order_refl)
    finally show "\<forall>y\<in>set ?ys. y \<noteq> x" by (simp only: takeWhile_eq_all_conv)
  next
    assume "\<forall>y\<in>set ?ys. y \<noteq> x"
    then have "takeWhile (\<lambda>y. y \<noteq> x) ?ys = ?ys" by (simp only: takeWhile_eq_all_conv)
    then show "?it = length ?ys" by (rule arg_cong)
  qed
  then show "(std_find xs 0 n x \<noteq> n) = (x \<in> set (take n xs))"
    unfolding it using len by auto
  have le: "?it \<le> n" using length_takeWhile_le [of _ ?ys] len by simp
  then have "?it \<le> length xs" using assms by simp
  then have "std_count_if xs 0 ?it p = length (filter p (take ?it xs))"
    by (simp add: std_count_if_eq)
  also have "take ?it xs = take ?it ?ys" using le by (simp add: min_def)
  also have "\<dots> = takeWhile (\<lambda>y. y \<noteq> x) ?ys" by (rule takeWhile_eq_take [symmetric])
  finally show "std_count_if xs 0 (std_find xs 0 n x) p
           = length (filter p (takeWhile (\<lambda>y. y \<noteq> x) (take n xs)))"
    unfolding it .
qed

lemma overflow_test:
  "(w AND push_bit j 1 = 0) = (\<not> bit w j)"
  "(w AND 2 ^ j = 0) = (\<not> bit w j)" for w :: "8 word"
  by (simp_all add: push_bit_of_1 and_exp_eq_0_iff_not_bit)

lemma boost_find_loop_step:
  assumes "boost_wf m" and "unat (pb_get pb) < length (groups m)"
  shows "boost_find_loop m hash pb info =
     (let g = groups m ! unat (pb_get pb);
          info' = info\<lparr>num_cmps := num_cmps info + boost_group_cmps g hash\<rparr>
      in if hash \<in> set (boost_group_keys g)
         then Some (Inr (info'\<lparr>num_cmps := num_cmps info' + 1\<rparr>, True))
         else if \<not> boost_group_marked g hash then Some (Inr (info', False))
         else boost_find_loop m hash (snd (pb_next pb (of_nat (length (groups m)) - 1)))
                (info'\<lparr>num_hops := num_hops info' + 1\<rparr>))"
proof -
  let ?g = "groups m ! unat (pb_get pb)"
  have "?g \<in> set (groups m)" using assms(2) by simp
  then have n: "g_n ?g \<le> length (g_elements ?g)"
    using assms(1) by (auto simp: boost_wf_def list_all_iff)
  show ?thesis
    using assms(2)
    by (subst boost_find_loop.simps)
       (simp add: Let_def std_find_keys(2,3) [OF n] overflow_test
          boost_group_keys_def boost_group_cmps_def boost_group_marked_def)
qed

lemma num_hops_boost_passed: "num_hops (boost_passed j m key pb info) = num_hops info + j"
  by (induction j arbitrary: pb info) simp_all

lemma boost_find_loop_out_of_range:
  "\<not> boost_in_range m pb \<Longrightarrow> boost_find_loop m key pb info = Some (Inl OutOfRange)"
  by (subst boost_find_loop.simps) (simp add: boost_in_range_def)

lemma boost_find_loop_found:
  "boost_wf m \<Longrightarrow> boost_found_here m key pb \<Longrightarrow>
   boost_find_loop m key pb info
     = Some (Inr (info\<lparr>num_cmps := num_cmps info + boost_group_cmps (boost_group_at m pb) key + 1\<rparr>, True))"
  by (simp add: boost_find_loop_step boost_found_here_def boost_in_range_def boost_group_at_def Let_def)

lemma boost_find_loop_absent:
  "boost_wf m \<Longrightarrow> boost_absent_here m key pb \<Longrightarrow>
   boost_find_loop m key pb info
     = Some (Inr (info\<lparr>num_cmps := num_cmps info + boost_group_cmps (boost_group_at m pb) key\<rparr>, False))"
  by (simp add: boost_find_loop_step boost_absent_here_def boost_in_range_def boost_group_at_def Let_def)

lemma boost_find_loop_passes:
  "boost_wf m \<Longrightarrow> boost_passes m key pb \<Longrightarrow>
   boost_find_loop m key pb info
     = boost_find_loop m key (snd (pb_next pb (boost_mask m)))
         (info\<lparr>num_cmps := num_cmps info + boost_group_cmps (boost_group_at m pb) key,
               num_hops := num_hops info + 1\<rparr>)"
  by (simp add: boost_find_loop_step boost_passes_def boost_in_range_def boost_group_at_def Let_def)

lemma boost_cases:
  "boost_passes m key pb \<or> boost_absent_here m key pb \<or> boost_found_here m key pb
   \<or> \<not> boost_in_range m pb"
  by (auto simp: boost_passes_def boost_absent_here_def boost_found_here_def)

lemma boost_find_loop_passed:
  assumes "boost_wf m" and "\<forall>i<j. boost_passes m key (pb_advance i (boost_mask m) pb)"
  shows "boost_find_loop m key pb info
       = boost_find_loop m key (pb_advance j (boost_mask m) pb) (boost_passed j m key pb info)"
  using assms(2)
proof (induction j arbitrary: pb info)
  case 0
  show ?case by simp
next
  case (Suc j)
  have p0: "boost_passes m key pb" using Suc.prems by (auto dest: spec [of _ 0])
  have "\<forall>i<j. boost_passes m key (pb_advance i (boost_mask m) (snd (pb_next pb (boost_mask m))))"
    using Suc.prems by (auto dest: spec [of _ "Suc i" for i])
  from Suc.IH [OF this] show ?case
    by (simp add: boost_find_loop_passes [OF assms(1) p0])
qed

text \<open>A lookup that returns has reached a group it does not pass.\<close>

lemma boost_find_loop_stops:
  assumes "boost_find_loop m key pb info = Some r" and "boost_wf m"
  shows "\<exists>j. (\<forall>i<j. boost_passes m key (pb_advance i (boost_mask m) pb))
            \<and> \<not> boost_passes m key (pb_advance j (boost_mask m) pb)"
  using assms(2)
proof (induction rule: boost_find_loop.raw_induct [OF _ assms(1)])
  case (1 loop m key pb info r)
  show ?case
  proof (cases "boost_passes m key pb")
    case False
    then have "(\<forall>i<0. boost_passes m key (pb_advance i (boost_mask m) pb))
            \<and> \<not> boost_passes m key (pb_advance 0 (boost_mask m) pb)" by simp
    then show ?thesis by blast
  next
    case True
    let ?pb = "snd (pb_next pb (boost_mask m))"
    let ?g = "groups m ! unat (pb_get pb)"
    have r: "unat (pb_get pb) < length (groups m)"
      using True by (simp add: boost_passes_def boost_in_range_def)
    then have "?g \<in> set (groups m)" by simp
    then have n: "g_n ?g \<le> length (g_elements ?g)"
      using "1.prems" by (auto simp: boost_wf_def list_all_iff)
    let ?info = "info\<lparr>num_cmps := num_cmps info + boost_group_cmps (boost_group_at m pb) key,
                         num_hops := num_hops info + 1\<rparr>"
    have a: "loop m key ?pb ?info = Some r"
      using "1.hyps" r True
      by (simp add: Let_def std_find_keys(2,3) [OF n] overflow_test boost_passes_def
            boost_group_at_def boost_group_keys_def boost_group_marked_def boost_group_cmps_def)
    from "1.IH" [OF a "1.prems"] obtain j where
      j: "\<forall>i<j. boost_passes m key (pb_advance i (boost_mask m) ?pb)"
         "\<not> boost_passes m key (pb_advance j (boost_mask m) ?pb)" by blast
    have "\<forall>i<Suc j. boost_passes m key (pb_advance i (boost_mask m) pb)"
    proof (intro allI impI)
      fix i assume "i < Suc j"
      then show "boost_passes m key (pb_advance i (boost_mask m) pb)"
        using True j(1) by (cases i) simp_all
    qed
    moreover have "\<not> boost_passes m key (pb_advance (Suc j) (boost_mask m) pb)"
      using j(2) by simp
    ultimately show ?thesis by blast
  qed
qed

lemma boost_insert_loop_cases:
  "\<not> boost_in_range m pb \<Longrightarrow> boost_insert_loop m key pb = Some (Inl OutOfRange)"
  "boost_in_range m pb \<Longrightarrow> \<not> boost_group_full (boost_group_at m pb) \<Longrightarrow>
     boost_insert_loop m key pb = Some (Inr (boost_place m (unat (pb_get pb)) key, True))"
  "boost_walks_past m pb \<Longrightarrow>
     boost_insert_loop m key pb
       = boost_insert_loop (boost_mark m (unat (pb_get pb)) key) key
           (snd (pb_next pb (boost_mask m)))"
  by (subst boost_insert_loop.simps;
      simp add: boost_in_range_def boost_group_full_def boost_group_at_def boost_walks_past_def
        boost_place_def boost_mark_def Let_def)+

lemma boost_mark_simps [simp]:
  "length (groups (boost_mark m i key)) = length (groups m)"
  "shift (boost_mark m i key) = shift m"
  "boost_in_range (boost_mark m i key) pb = boost_in_range m pb"
  by (simp_all add: boost_mark_def boost_in_range_def)

lemma boost_mark_group:
  "x < length (groups m) \<Longrightarrow>
   g_n (groups (boost_mark m i key) ! x) = g_n (groups m ! x)
   \<and> g_elements (groups (boost_mark m i key) ! x) = g_elements (groups m ! x)"
  by (cases "x = i") (simp_all add: boost_mark_def)

lemma boost_mark_full [simp]:
  "boost_in_range m pb \<Longrightarrow>
   boost_group_full (boost_group_at (boost_mark m i key) pb) = boost_group_full (boost_group_at m pb)"
  by (simp add: boost_group_full_def boost_group_at_def boost_in_range_def boost_mark_group)

lemma boost_mark_keys [simp]:
  "boost_in_range m pb \<Longrightarrow>
   boost_group_keys (boost_group_at (boost_mark m i key) pb) = boost_group_keys (boost_group_at m pb)"
  by (simp add: boost_group_keys_def boost_group_at_def boost_in_range_def boost_mark_group)

lemma boost_mark_walks_past [simp]:
  "boost_walks_past (boost_mark m i key) pb = boost_walks_past m pb"
  by (auto simp: boost_walks_past_def)

lemma boost_group_le_refl: "boost_group_le g g"
  by (simp add: boost_group_le_def)

lemma boost_group_le_trans:
  assumes "boost_group_le a b" "boost_group_le b c"
  shows "boost_group_le a c"
proof -
  have n: "g_n a \<le> g_n b" "g_n b \<le> g_n c" using assms by (simp_all add: boost_group_le_def)
  have "take (g_n a) (g_elements c) = take (g_n a) (take (g_n b) (g_elements c))"
    using n by (simp add: min_def)
  also have "\<dots> = take (g_n a) (take (g_n b) (g_elements b))"
    using assms(2) by (simp add: boost_group_le_def)
  also have "\<dots> = take (g_n a) (g_elements b)" using n by (simp add: min_def)
  also have "\<dots> = take (g_n a) (g_elements a)" using assms(1) by (simp add: boost_group_le_def)
  finally have t: "take (g_n a) (g_elements c) = take (g_n a) (g_elements a)" .
  have "g_overflow a AND g_overflow c = (g_overflow a AND g_overflow b) AND g_overflow c"
    using assms(1) by (simp add: boost_group_le_def)
  also have "\<dots> = g_overflow a AND (g_overflow b AND g_overflow c)" by (simp add: and.assoc)
  also have "\<dots> = g_overflow a" using assms by (simp add: boost_group_le_def)
  finally have o: "g_overflow a AND g_overflow c = g_overflow a" .
  show ?thesis
    using assms t o n unfolding boost_group_le_def by auto
qed

lemma boost_le_refl: "boost_le m m"
  by (simp add: boost_le_def list_all2_refl boost_group_le_refl)

lemma boost_le_trans: "boost_le a b \<Longrightarrow> boost_le b c \<Longrightarrow> boost_le a c"
  unfolding boost_le_def
  by (auto elim: list_all2_trans [rotated] intro: boost_group_le_trans)

lemma boost_le_length: "boost_le m m' \<Longrightarrow> length (groups m') = length (groups m)"
  by (auto simp: boost_le_def dest: list_all2_lengthD)

lemma boost_le_nth:
  "boost_le m m' \<Longrightarrow> x < length (groups m) \<Longrightarrow> boost_group_le (groups m ! x) (groups m' ! x)"
  by (simp add: boost_le_def list_all2_nthD)

lemma list_all2_update_right:
  assumes "\<And>x. R x x" and "i < length xs \<Longrightarrow> R (xs ! i) y"
  shows "list_all2 R xs (xs[i := y])"
proof (cases "i < length xs")
  case True
  have "list_all2 R (xs[i := xs ! i]) (xs[i := y])"
    using assms True by (intro list_all2_update_cong) (simp_all add: list_all2_refl)
  then show ?thesis by simp
next
  case False
  then show ?thesis by (simp add: list_all2_conv_all_nth assms(1))
qed

lemma and_or_absorb: "w AND (w OR b) = w" for w :: "8 word"
  by (rule bit_eqI) (auto simp: bit_and_iff bit_or_iff)

lemma boost_le_mark: "boost_le m (boost_mark m i key)"
  unfolding boost_le_def boost_mark_def
  by (simp, rule list_all2_update_right)
     (simp_all add: boost_group_le_def and_or_absorb)

lemma boost_le_place:
  "i < length (groups m) \<Longrightarrow> g_n (groups m ! i) < boost_N \<Longrightarrow> boost_le m (boost_place m i key)"
  unfolding boost_le_def boost_place_def
  by (simp, rule list_all2_update_right) (simp_all add: boost_group_le_def)

lemma boost_wf_le: "boost_wf m \<Longrightarrow> boost_le m m' \<Longrightarrow> boost_wf m'"
  unfolding boost_wf_def boost_le_def list_all_length list_all2_conv_all_nth boost_group_le_def
  by auto

lemma boost_marked_le:
  assumes "boost_group_le g g'" "boost_group_marked g key"
  shows "boost_group_marked g' key"
proof -
  have "bit (g_overflow g AND g_overflow g') (unat (key mod 8))"
    using assms by (simp add: boost_group_le_def boost_group_marked_def)
  then show ?thesis by (simp add: boost_group_marked_def bit_and_iff)
qed

lemma unat_mod_8_less: "unat (key mod 8 :: size_t) < 8"
  by (simp add: unat_mod)

lemma boost_mark_marked:
  "i < length (groups m) \<Longrightarrow> boost_group_marked (groups (boost_mark m i key) ! i) key"
  using unat_mod_8_less [of key]
  by (simp add: boost_mark_def boost_group_marked_def bit_simps)

lemma boost_place_keys:
  assumes "i < length (groups m)" "g_n (groups m ! i) < length (g_elements (groups m ! i))"
  shows "boost_group_keys (groups (boost_place m i key) ! i) = boost_group_keys (groups m ! i) @ [key]"
  using assms by (simp add: boost_place_def boost_group_keys_def take_Suc_conv_app_nth)

lemma boost_mask_le: "boost_le m m' \<Longrightarrow> boost_mask m' = boost_mask m"
  by (simp add: boost_le_length)

lemma boost_in_range_le: "boost_le m m' \<Longrightarrow> boost_in_range m' pb = boost_in_range m pb"
  by (simp add: boost_in_range_def boost_le_length)

lemma boost_group_at_le:
  "boost_le m m' \<Longrightarrow> boost_in_range m pb \<Longrightarrow>
   boost_group_le (boost_group_at m pb) (boost_group_at m' pb)"
  by (simp add: boost_group_at_def boost_in_range_def boost_le_nth)

text \<open>An insertion loop that returns has reached a group it does not walk past.\<close>

lemma boost_insert_loop_stops:
  assumes "boost_insert_loop m key pb = Some r"
  shows "\<exists>j. (\<forall>i<j. boost_walks_past m (pb_advance i (boost_mask m) pb))
            \<and> \<not> boost_walks_past m (pb_advance j (boost_mask m) pb)"
proof (induction rule: boost_insert_loop.raw_induct [OF _ assms])
  case (1 loop m key pb r)
  show ?case
  proof (cases "boost_walks_past m pb")
    case False
    then have "(\<forall>i<0. boost_walks_past m (pb_advance i (boost_mask m) pb))
            \<and> \<not> boost_walks_past m (pb_advance 0 (boost_mask m) pb)" by simp
    then show ?thesis by blast
  next
    case True
    let ?pb = "snd (pb_next pb (boost_mask m))"
    let ?m = "boost_mark m (unat (pb_get pb)) key"
    have a: "loop ?m key ?pb = Some r"
      using "1.hyps" True
      by (simp add: Let_def boost_walks_past_def boost_in_range_def boost_group_full_def
            boost_group_at_def boost_mark_def)
    from "1.IH" [OF a] obtain j where
      j: "\<forall>i<j. boost_walks_past m (pb_advance i (boost_mask m) ?pb)"
         "\<not> boost_walks_past m (pb_advance j (boost_mask m) ?pb)" by auto
    have "\<forall>i<Suc j. boost_walks_past m (pb_advance i (boost_mask m) pb)"
    proof (intro allI impI)
      fix i assume "i < Suc j"
      then show "boost_walks_past m (pb_advance i (boost_mask m) pb)"
        using True j(1) by (cases i) simp_all
    qed
    moreover have "\<not> boost_walks_past m (pb_advance (Suc j) (boost_mask m) pb)"
      using j(2) by simp
    ultimately show ?thesis by blast
  qed
qed

lemma boost_insert_loop_fault:
  assumes "\<forall>i<j. boost_walks_past m (pb_advance i (boost_mask m) pb)"
    and "\<not> boost_in_range m (pb_advance j (boost_mask m) pb)"
  shows "boost_insert_loop m key pb = Some (Inl OutOfRange)"
  using assms
proof (induction j arbitrary: m pb)
  case 0
  then show ?case by (simp add: boost_insert_loop_cases(1))
next
  case (Suc j)
  let ?pb = "snd (pb_next pb (boost_mask m))"
  let ?m = "boost_mark m (unat (pb_get pb)) key"
  have p0: "boost_walks_past m pb" using Suc.prems(1) by (auto dest: spec [of _ 0])
  have "\<forall>i<j. boost_walks_past ?m (pb_advance i (boost_mask ?m) ?pb)"
    using Suc.prems(1) by (auto dest: spec [of _ "Suc i" for i])
  moreover have "\<not> boost_in_range ?m (pb_advance j (boost_mask ?m) ?pb)"
    using Suc.prems(2) by simp
  ultimately have "boost_insert_loop ?m key ?pb = Some (Inl OutOfRange)" by (rule Suc.IH)
  then show ?case by (simp add: boost_insert_loop_cases(3) [OF p0])
qed

text \<open>The insertion walks past \<open>j\<close> full groups, marks each, and appends the key to the
  first group with room.\<close>

lemma boost_insert_loop_places:
  assumes "boost_wf m"
    and "\<forall>i<j. boost_walks_past m (pb_advance i (boost_mask m) pb)"
    and "boost_in_range m (pb_advance j (boost_mask m) pb)"
    and "\<not> boost_group_full (boost_group_at m (pb_advance j (boost_mask m) pb))"
  shows "\<exists>m'. boost_insert_loop m key pb = Some (Inr (m', True))
            \<and> boost_le m m'
            \<and> (\<forall>i<j. boost_group_marked (boost_group_at m' (pb_advance i (boost_mask m) pb)) key)
            \<and> boost_group_keys (boost_group_at m' (pb_advance j (boost_mask m) pb))
                = boost_group_keys (boost_group_at m (pb_advance j (boost_mask m) pb)) @ [key]"
  using assms
proof (induction j arbitrary: m pb)
  case 0
  let ?i = "unat (pb_get pb)"
  have r: "?i < length (groups m)" using "0.prems"(3) by (simp add: boost_in_range_def)
  have room: "g_n (groups m ! ?i) < boost_N"
    using "0.prems"(4) by (simp add: boost_group_full_def boost_group_at_def)
  have "groups m ! ?i \<in> set (groups m)" using r by simp
  then have "length (g_elements (groups m ! ?i)) = boost_N"
    using "0.prems"(1) by (auto simp: boost_wf_def list_all_iff)
  then have k: "boost_group_keys (groups (boost_place m ?i key) ! ?i)
                  = boost_group_keys (groups m ! ?i) @ [key]"
    using r room by (simp add: boost_place_keys)
  have "boost_insert_loop m key pb = Some (Inr (boost_place m ?i key, True))"
    using "0.prems"(3,4) by (simp add: boost_insert_loop_cases(2))
  moreover have "boost_le m (boost_place m ?i key)" using r room by (rule boost_le_place)
  ultimately show ?case using k by (simp add: boost_group_at_def)
next
  case (Suc j)
  let ?pb = "snd (pb_next pb (boost_mask m))"
  let ?i = "unat (pb_get pb)"
  let ?m = "boost_mark m ?i key"
  have p0: "boost_walks_past m pb" using Suc.prems(2) by (auto dest: spec [of _ 0])
  then have r: "?i < length (groups m)" by (simp add: boost_walks_past_def boost_in_range_def)
  have le1: "boost_le m ?m" by (rule boost_le_mark)
  have wf1: "boost_wf ?m" using Suc.prems(1) le1 by (rule boost_wf_le)
  have a: "\<forall>i<j. boost_walks_past ?m (pb_advance i (boost_mask ?m) ?pb)"
    using Suc.prems(2) by (auto dest: spec [of _ "Suc i" for i])
  have b: "boost_in_range ?m (pb_advance j (boost_mask ?m) ?pb)"
    using Suc.prems(3) by simp
  have c: "\<not> boost_group_full (boost_group_at ?m (pb_advance j (boost_mask ?m) ?pb))"
    using Suc.prems(3,4) by simp
  from Suc.IH [OF wf1 a b c] obtain m' where
    m': "boost_insert_loop ?m key ?pb = Some (Inr (m', True))"
        "boost_le ?m m'"
        "\<forall>i<j. boost_group_marked (boost_group_at m' (pb_advance i (boost_mask ?m) ?pb)) key"
        "boost_group_keys (boost_group_at m' (pb_advance j (boost_mask ?m) ?pb))
           = boost_group_keys (boost_group_at ?m (pb_advance j (boost_mask ?m) ?pb)) @ [key]"
    by blast
  have 1: "boost_insert_loop m key pb = Some (Inr (m', True))"
    using m'(1) by (simp add: boost_insert_loop_cases(3) [OF p0])
  have 2: "boost_le m m'" using le1 m'(2) by (rule boost_le_trans)
  have "boost_group_marked (boost_group_at ?m pb) key"
    using r by (simp add: boost_group_at_def boost_mark_marked)
  moreover have "boost_group_le (boost_group_at ?m pb) (boost_group_at m' pb)"
    using m'(2) p0 by (intro boost_group_at_le) (simp_all add: boost_walks_past_def)
  ultimately have m0: "boost_group_marked (boost_group_at m' pb) key"
    by (rule boost_marked_le [rotated])
  have 3: "\<forall>i<Suc j. boost_group_marked (boost_group_at m' (pb_advance i (boost_mask m) pb)) key"
  proof (intro allI impI)
    fix i assume "i < Suc j"
    then show "boost_group_marked (boost_group_at m' (pb_advance i (boost_mask m) pb)) key"
      using m0 m'(3) by (cases i) simp_all
  qed
  have 4: "boost_group_keys (boost_group_at m' (pb_advance (Suc j) (boost_mask m) pb))
         = boost_group_keys (boost_group_at m (pb_advance (Suc j) (boost_mask m) pb)) @ [key]"
    using m'(4) Suc.prems(3) by simp
  from 1 2 3 4 show ?case by blast
qed

text \<open>A lookup that walks only over groups marked for the key, or holding it, up to a
  group that holds it, returns found with at least one comparison.\<close>

lemma boost_find_loop_finds:
  assumes "boost_wf m"
    and "\<forall>i<j. boost_in_range m (pb_advance i (boost_mask m) pb)
              \<and> boost_group_marked (boost_group_at m (pb_advance i (boost_mask m) pb)) key"
    and "boost_found_here m key (pb_advance j (boost_mask m) pb)"
  shows "\<exists>info'. boost_find_loop m key pb info = Some (Inr (info', True)) \<and> 1 \<le> num_cmps info'"
  using assms(2,3)
proof (induction j arbitrary: pb info)
  case 0
  then show ?case by (simp add: boost_find_loop_found [OF assms(1)])
next
  case (Suc j)
  let ?pb = "snd (pb_next pb (boost_mask m))"
  show ?case
  proof (cases "boost_found_here m key pb")
    case True
    then show ?thesis by (simp add: boost_find_loop_found [OF assms(1)])
  next
    case False
    have "boost_in_range m pb \<and> boost_group_marked (boost_group_at m pb) key"
      using Suc.prems(1) by (auto dest: spec [of _ 0])
    with False have p: "boost_passes m key pb"
      by (simp add: boost_passes_def boost_found_here_def)
    have a: "\<forall>i<j. boost_in_range m (pb_advance i (boost_mask m) ?pb)
              \<and> boost_group_marked (boost_group_at m (pb_advance i (boost_mask m) ?pb)) key"
      using Suc.prems(1) by (auto dest: spec [of _ "Suc i" for i])
    have b: "boost_found_here m key (pb_advance j (boost_mask m) ?pb)"
      using Suc.prems(2) by simp
    from Suc.IH [OF a b] show ?thesis
      by (simp add: boost_find_loop_passes [OF assms(1) p])
  qed
qed

lemma boost_find_loop_true_cmps:
  assumes "boost_wf m" and "boost_find_loop m key pb info = Some (Inr (info', True))"
  shows "1 \<le> num_cmps info'"
proof -
  from boost_find_loop_stops [OF assms(2,1)] obtain j where
    j: "\<forall>i<j. boost_passes m key (pb_advance i (boost_mask m) pb)"
       "\<not> boost_passes m key (pb_advance j (boost_mask m) pb)" by blast
  let ?pb = "pb_advance j (boost_mask m) pb"
  let ?info = "boost_passed j m key pb info"
  have e: "boost_find_loop m key ?pb ?info = Some (Inr (info', True))"
    using boost_find_loop_passed [OF assms(1) j(1), of info] assms(2) by simp
  from boost_cases [of m key ?pb] j(2)
  consider "boost_absent_here m key ?pb" | "boost_found_here m key ?pb" | "\<not> boost_in_range m ?pb"
    by blast
  then show ?thesis
  proof cases
    case 1
    with e show ?thesis by (simp add: boost_find_loop_absent [OF assms(1)])
  next
    case 2
    with e show ?thesis by (auto simp: boost_find_loop_found [OF assms(1)])
  next
    case 3
    with e show ?thesis by (simp add: boost_find_loop_out_of_range)
  qed
qed

lemma boost_insert_then_find:
  assumes "boost_wf m" and "boost_insert m key = Some (Inr (m', b))"
  shows "\<exists>info. boost_find m' key = Some (Inr (info, True)) \<and> 1 \<le> num_cmps info"
proof -
  from assms(2) obtain info0 found where f: "boost_find m key = Some (Inr (info0, found))"
    by (auto simp: boost_insert_def split: option.splits sum.splits)
  then obtain p0 where p0: "boost_position_for m key = Inr p0"
      and fl: "boost_find_loop m key (prober_init p0) \<lparr>num_hops = 0, num_cmps = 0\<rparr>
                 = Some (Inr (info0, found))"
    by (auto simp: boost_find_def split: sum.splits)
  show ?thesis
  proof (cases found)
    case True
    then have "m' = m" using assms(2) f by (simp add: boost_insert_def)
    moreover have "1 \<le> num_cmps info0"
      using boost_find_loop_true_cmps [OF assms(1)] fl True by simp
    ultimately show ?thesis using f True by simp
  next
    case False
    let ?pb = "prober_init p0"
    have il: "boost_insert_loop m key ?pb = Some (Inr (m', b))"
      using assms(2) f p0 False by (simp add: boost_insert_def)
    from boost_insert_loop_stops [OF il] obtain j where
      j: "\<forall>i<j. boost_walks_past m (pb_advance i (boost_mask m) ?pb)"
         "\<not> boost_walks_past m (pb_advance j (boost_mask m) ?pb)" by blast
    have r: "boost_in_range m (pb_advance j (boost_mask m) ?pb)"
    proof (rule ccontr)
      assume "\<not> boost_in_range m (pb_advance j (boost_mask m) ?pb)"
      with j(1) have "boost_insert_loop m key ?pb = Some (Inl OutOfRange)"
        by (rule boost_insert_loop_fault)
      with il show False by simp
    qed
    with j(2) have nf: "\<not> boost_group_full (boost_group_at m (pb_advance j (boost_mask m) ?pb))"
      by (simp add: boost_walks_past_def)
    from boost_insert_loop_places [OF assms(1) j(1) r nf, of key] il
    have le: "boost_le m m'"
      and mk: "\<forall>i<j. boost_group_marked (boost_group_at m' (pb_advance i (boost_mask m) ?pb)) key"
      and ks: "boost_group_keys (boost_group_at m' (pb_advance j (boost_mask m) ?pb))
                = boost_group_keys (boost_group_at m (pb_advance j (boost_mask m) ?pb)) @ [key]"
      by auto
    have wf': "boost_wf m'" using assms(1) le by (rule boost_wf_le)
    have mask: "boost_mask m' = boost_mask m" using le by (rule boost_mask_le)
    have a: "\<forall>i<j. boost_in_range m' (pb_advance i (boost_mask m') ?pb)
              \<and> boost_group_marked (boost_group_at m' (pb_advance i (boost_mask m') ?pb)) key"
      using j(1) mk by (simp add: mask boost_in_range_le [OF le] boost_walks_past_def)
    have b: "boost_found_here m' key (pb_advance j (boost_mask m') ?pb)"
      using r ks by (simp add: mask boost_found_here_def boost_in_range_le [OF le])
    from boost_find_loop_finds [OF wf' a b, of "\<lparr>num_hops = 0, num_cmps = 0\<rparr>"]
    obtain info where "boost_find_loop m' key ?pb \<lparr>num_hops = 0, num_cmps = 0\<rparr>
                         = Some (Inr (info, True))" "1 \<le> num_cmps info" by blast
    moreover have "boost_position_for m' key = Inr p0"
      using p0 le by (simp add: boost_position_for_def boost_le_def split: if_splits)
    ultimately show ?thesis by (simp add: boost_find_def)
  qed
qed

section \<open>Variant B: window scans, lookups and insertions\<close>

lemma of_nat_neq_0_64: "0 < n \<Longrightarrow> n < 2 ^ 64 \<Longrightarrow> (of_nat n :: size_t) \<noteq> 0"
  using of_nat_neq_0 [where 'a = 64, of n] by simp

lemma unat_of_nat_64: "n < 2 ^ 64 \<Longrightarrow> unat (of_nat n :: size_t) = n"
  by (simp add: unat_of_nat)

lemma upt_Suc_shift: "[0..<Suc n] = 0 # map Suc [0..<n]"
proof -
  have "[0..<Suc n] = 0 # [Suc 0..<Suc n]" by (rule upt_conv_Cons) simp
  also have "[Suc 0..<Suc n] = map Suc [0..<n]" by (rule map_Suc_upt [symmetric])
  finally show ?thesis .
qed

lemma abseil_find_in_eq:
  "n < 2 ^ 64 \<Longrightarrow>
   abseil_find_in m p (p + of_nat n) x
     = p + of_nat (length (takeWhile (\<lambda>s. s \<noteq> x)
                             (map (\<lambda>i. abseil_element_at m (p + of_nat i)) [0..<n])))"
proof (induction n arbitrary: p)
  case 0
  show ?case by (subst abseil_find_in.simps) simp
next
  case (Suc n)
  have ne: "p \<noteq> p + of_nat (Suc n)"
    using of_nat_neq_0_64 [of "Suc n"] Suc.prems by simp
  have n: "n < 2 ^ 64" using Suc.prems by simp
  have sh: "p + of_nat (Suc n) = (p + 1) + of_nat n" by simp
  have m: "map (\<lambda>i. abseil_element_at m (p + of_nat i)) [0..<Suc n]
         = abseil_element_at m p # map (\<lambda>i. abseil_element_at m ((p + 1) + of_nat i)) [0..<n]"
    by (simp add: upt_Suc_shift comp_def add.assoc del: upt_Suc)
  show ?case
  proof (cases "abseil_element_at m p = x")
    case True
    then show ?thesis using ne by (subst abseil_find_in.simps) (simp add: m del: upt_Suc of_nat_Suc)
  next
    case False
    have "abseil_find_in m p (p + of_nat (Suc n)) x = abseil_find_in m (p + 1) ((p + 1) + of_nat n) x"
      using ne False by (subst abseil_find_in.simps) (simp add: sh del: of_nat_Suc)
    also note Suc.IH [OF n, of "p + 1"]
    finally show ?thesis using False by (simp add: m add.assoc del: upt_Suc)
  qed
qed

lemma abseil_num_cmps_eq:
  "n < 2 ^ 64 \<Longrightarrow>
   abseil_num_cmps m p (p + of_nat n) hash
     = length (filter (low7_match hash)
                 (map (\<lambda>i. abseil_element_at m (p + of_nat i)) [0..<n]))"
proof (induction n arbitrary: p)
  case 0
  show ?case by (subst abseil_num_cmps.simps) simp
next
  case (Suc n)
  have ne: "p \<noteq> p + of_nat (Suc n)"
    using of_nat_neq_0_64 [of "Suc n"] Suc.prems by simp
  have n: "n < 2 ^ 64" using Suc.prems by simp
  have sh: "p + of_nat (Suc n) = (p + 1) + of_nat n" by simp
  have m: "map (\<lambda>i. abseil_element_at m (p + of_nat i)) [0..<Suc n]
         = abseil_element_at m p # map (\<lambda>i. abseil_element_at m ((p + 1) + of_nat i)) [0..<n]"
    by (simp add: upt_Suc_shift comp_def add.assoc del: upt_Suc)
  have "abseil_num_cmps m p (p + of_nat (Suc n)) hash
          = (if low7_match hash (abseil_element_at m p) then 1 else 0)
            + abseil_num_cmps m (p + 1) ((p + 1) + of_nat n) hash"
    using ne by (subst abseil_num_cmps.simps) (simp add: sh low7_match_def split: option.splits del: of_nat_Suc)
  also note Suc.IH [OF n, of "p + 1"]
  finally show ?case by (simp add: m del: upt_Suc of_nat_Suc)
qed

text \<open>What the scan of one window finds, in terms of the window's contents.\<close>

lemma abseil_window_scan:
  fixes m pos0 x
  defines "W \<equiv> abseil_window m pos0"
  defines "j \<equiv> length (takeWhile (\<lambda>s. s \<noteq> x) W)"
  shows "abseil_find_in m pos0 (pos0 + of_nat abseil_N) x = pos0 + of_nat j"
    and "(abseil_find_in m pos0 (pos0 + of_nat abseil_N) x \<noteq> pos0 + of_nat abseil_N) = (x \<in> set W)"
    and "abseil_num_cmps m pos0 (abseil_find_in m pos0 (pos0 + of_nat abseil_N) x) hash
           = length (filter (low7_match hash) (takeWhile (\<lambda>s. s \<noteq> x) W))"
proof -
  have N: "abseil_N < 2 ^ 64" by (simp add: abseil_N_def)
  show f: "abseil_find_in m pos0 (pos0 + of_nat abseil_N) x = pos0 + of_nat j"
    unfolding j_def W_def abseil_window_def by (rule abseil_find_in_eq [OF N])
  have len: "length W = abseil_N" by (simp add: W_def abseil_window_def)
  have jle: "j \<le> abseil_N" unfolding j_def using length_takeWhile_le [of _ W] len by simp
  then have j64: "j < 2 ^ 64" using N by simp
  have "(of_nat j = (of_nat abseil_N :: size_t)) = (j = abseil_N)"
    using j64 N by (metis unat_of_nat_64)
  moreover have "(j = length W) = (\<forall>s\<in>set W. s \<noteq> x)"
  proof
    assume e: "j = length W"
    have "takeWhile (\<lambda>s. s \<noteq> x) W = take j W" unfolding j_def by (rule takeWhile_eq_take)
    also have "\<dots> = W" by (simp only: e take_all order_refl)
    finally show "\<forall>s\<in>set W. s \<noteq> x" by (simp only: takeWhile_eq_all_conv)
  next
    assume "\<forall>s\<in>set W. s \<noteq> x"
    then have "takeWhile (\<lambda>s. s \<noteq> x) W = W" by (simp only: takeWhile_eq_all_conv)
    then show "j = length W" unfolding j_def by (rule arg_cong)
  qed
  ultimately show "(abseil_find_in m pos0 (pos0 + of_nat abseil_N) x \<noteq> pos0 + of_nat abseil_N) = (x \<in> set W)"
    unfolding f using len by auto
  have "map (\<lambda>i. abseil_element_at m (pos0 + of_nat i)) [0..<j] = take j W"
    using jle unfolding W_def abseil_window_def by (simp add: take_map min_def)
  also have "\<dots> = takeWhile (\<lambda>s. s \<noteq> x) W" unfolding j_def by (rule takeWhile_eq_take [symmetric])
  finally show "abseil_num_cmps m pos0 (abseil_find_in m pos0 (pos0 + of_nat abseil_N) x) hash
           = length (filter (low7_match hash) (takeWhile (\<lambda>s. s \<noteq> x) W))"
    unfolding f by (simp add: abseil_num_cmps_eq [OF j64])
qed

lemma abseil_find_loop_step:
  "abseil_find_loop m hash off pb info =
     (if elements m = [] then Some (Inl OutOfRange)
      else
        let pos0 = pb_get pb * of_nat abseil_N + off;
            info' = info\<lparr>num_cmps := num_cmps info + abseil_window_cmps m pos0 hash\<rparr>
        in if Some hash \<in> set (abseil_window m pos0)
           then Some (Inr (info'\<lparr>num_cmps := num_cmps info' + 1\<rparr>, True))
           else if None \<in> set (abseil_window m pos0) then Some (Inr (info', False))
           else abseil_find_loop m hash off (snd (pb_next pb (abseil_mask m)))
                  (info'\<lparr>num_hops := num_hops info' + 1\<rparr>))"
  by (subst abseil_find_loop.simps)
     (simp add: Let_def abseil_window_scan(2,3) abseil_window_cmps_def)

lemma length_takeWhile_neq_less:
  "(length (takeWhile (\<lambda>s. s \<noteq> x) xs) < length xs) = (x \<in> set xs)"
  by (induction xs) auto

lemma nth_length_takeWhile_neq:
  "x \<in> set xs \<Longrightarrow> xs ! length (takeWhile (\<lambda>s. s \<noteq> x) xs) = x"
  by (induction xs) auto

lemma abseil_index_in_range:
  assumes "elements m \<noteq> []"
  shows "unat (p AND (abseil_size m - 1)) < length (elements m)"
proof (cases "length (elements m) < 2 ^ 64")
  case True
  have pos: "0 < length (elements m)" using assms by simp
  then have "abseil_size m \<noteq> 0"
    unfolding abseil_size_def using True by (rule of_nat_neq_0_64)
  then have "unat (abseil_size m - 1) = unat (abseil_size m) - 1" by (rule unat_minus_one)
  also have "unat (abseil_size m) = length (elements m)"
    unfolding abseil_size_def using True by (rule unat_of_nat_64)
  finally have u: "unat (abseil_size m - 1) = length (elements m) - 1" .
  have "p AND (abseil_size m - 1) \<le> abseil_size m - 1" by (rule word_and_le1)
  then have "unat (p AND (abseil_size m - 1)) \<le> length (elements m) - 1"
    by (simp add: word_le_nat_alt u)
  then show ?thesis using pos by arith
next
  case False
  have "unat (p AND (abseil_size m - 1)) < 2 ^ 64"
    using unsigned_less [of "p AND (abseil_size m - 1)", where 'a = nat] by simp
  then show ?thesis using False by simp
qed

lemma abseil_le_refl: "abseil_le m m"
  by (simp add: abseil_le_def list_all2_refl)

lemma abseil_le_trans: "abseil_le a b \<Longrightarrow> abseil_le b c \<Longrightarrow> abseil_le a c"
  unfolding abseil_le_def list_all2_conv_all_nth by auto

lemma abseil_le_length: "abseil_le m m' \<Longrightarrow> length (elements m') = length (elements m)"
  by (auto simp: abseil_le_def dest: list_all2_lengthD)

lemma abseil_le_size: "abseil_le m m' \<Longrightarrow> abseil_size m' = abseil_size m"
  by (simp add: abseil_size_def abseil_le_length)

lemma abseil_le_element_at:
  assumes "abseil_le m m'" "elements m \<noteq> []" "abseil_element_at m p \<noteq> None"
  shows "abseil_element_at m' p = abseil_element_at m p"
proof -
  have "unat (p AND (abseil_size m - 1)) < length (elements m)"
    using assms(2) by (rule abseil_index_in_range)
  then show ?thesis
    using assms(1,3) unfolding abseil_element_at_def abseil_le_size [OF assms(1)]
    by (auto simp: abseil_le_def list_all2_conv_all_nth)
qed

lemma abseil_le_window:
  assumes "abseil_le m m'" "elements m \<noteq> []" "None \<notin> set (abseil_window m pos0)"
  shows "abseil_window m' pos0 = abseil_window m pos0"
  using assms(3) unfolding abseil_window_def
  by (auto simp: abseil_le_element_at [OF assms(1,2)] image_iff)

lemma abseil_le_update:
  assumes "elements m ! i = None"
  shows "abseil_le m (m\<lparr>elements := (elements m)[i := Some key]\<rparr>)"
proof -
  have "(elements m)[i := Some key] ! k = elements m ! k"
    if "elements m ! k \<noteq> None" for k
  proof -
    have "k \<noteq> i" using that assms by auto
    then show ?thesis by simp
  qed
  then show ?thesis by (simp add: abseil_le_def list_all2_conv_all_nth)
qed

text \<open>An insertion that returns has stored the key where the following lookup meets
  it: the windows it probed before were full and stay full.\<close>

lemma abseil_insert_loop_then_find:
  assumes "abseil_insert_loop m key off pb = Some (Inr (m', b))"
  shows "b \<and> abseil_le m m'
       \<and> (\<forall>info. \<exists>info'. abseil_find_loop m' key off pb info = Some (Inr (info', True))
                        \<and> 1 \<le> num_cmps info')"
proof -
  have "\<forall>m' b. r = Inr (m', b) \<longrightarrow>
          b \<and> abseil_le m m'
          \<and> (\<forall>info. \<exists>info'. abseil_find_loop m' key off pb info = Some (Inr (info', True))
                           \<and> 1 \<le> num_cmps info')"
    if "abseil_insert_loop m key off pb = Some r" for r
  proof (induction rule: abseil_insert_loop.raw_induct [OF _ that])
    case (1 loop m key off pb r)
    show ?case
    proof (intro allI impI)
      fix m' b assume r: "r = Inr (m', b)"
      let ?pos0 = "pb_get pb * of_nat abseil_N + off"
      let ?W = "abseil_window m ?pos0"
      have ne: "elements m \<noteq> []" using "1.hyps" r by (auto split: if_splits)
      show "b \<and> abseil_le m m'
          \<and> (\<forall>info. \<exists>info'. abseil_find_loop m' key off pb info = Some (Inr (info', True))
                           \<and> 1 \<le> num_cmps info')"
      proof (cases "None \<in> set ?W")
        case True
        let ?j = "length (takeWhile (\<lambda>s. s \<noteq> None) ?W)"
        let ?pos1 = "abseil_find_in m ?pos0 (?pos0 + of_nat abseil_N) None"
        let ?i = "unat (?pos1 AND (abseil_size m - 1))"
        have p1: "?pos1 = ?pos0 + of_nat ?j" by (rule abseil_window_scan(1))
        have m': "m' = m\<lparr>elements := (elements m)[?i := Some key]\<rparr>" and b: b
          using "1.hyps" r ne True by (simp_all add: Let_def abseil_window_scan(2))
        have jlt: "?j < abseil_N"
          using True length_takeWhile_neq_less [of None ?W]
          by (simp add: abseil_window_def)
        have "?W ! ?j = None"
          using True by (rule nth_length_takeWhile_neq)
        then have e: "abseil_element_at m ?pos1 = None"
          using jlt by (simp add: p1 abseil_window_def)
        then have le: "abseil_le m m'"
          unfolding m' by (intro abseil_le_update) (simp add: abseil_element_at_def)
        have i: "?i < length (elements m)" using ne by (rule abseil_index_in_range)
        have "abseil_element_at m' ?pos1 = Some key"
          using i by (simp add: abseil_element_at_def m' abseil_size_def)
        then have "abseil_window m' ?pos0 ! ?j = Some key"
          using jlt by (simp add: abseil_window_def p1)
        moreover have "?j < length (abseil_window m' ?pos0)"
          using jlt by (simp add: abseil_window_def)
        ultimately have "Some key \<in> set (abseil_window m' ?pos0)"
          by (metis nth_mem)
        moreover have "elements m' \<noteq> []" using ne by (simp add: m')
        ultimately have "\<forall>info. \<exists>info'. abseil_find_loop m' key off pb info = Some (Inr (info', True))
                           \<and> 1 \<le> num_cmps info'"
          by (simp add: abseil_find_loop_step Let_def)
        with b le show ?thesis by simp
      next
        case False
        let ?pb = "snd (pb_next pb (abseil_mask m))"
        have a: "loop m key off ?pb = Some r"
          using "1.hyps" ne False by (simp add: Let_def abseil_window_scan(2))
        from "1.IH" [OF a] r have b: b and le: "abseil_le m m'"
          and f: "\<forall>info. \<exists>info'. abseil_find_loop m' key off ?pb info = Some (Inr (info', True))
                           \<and> 1 \<le> num_cmps info'" by auto
        have W': "abseil_window m' ?pos0 = ?W" using le ne False by (rule abseil_le_window)
        have ne': "elements m' \<noteq> []" using ne abseil_le_length [OF le] by auto
        have "\<exists>info'. abseil_find_loop m' key off pb info = Some (Inr (info', True))
                           \<and> 1 \<le> num_cmps info'" for info
        proof (cases "Some key \<in> set ?W")
          case True
          then show ?thesis using ne' W' by (simp add: abseil_find_loop_step [of m'] Let_def)
        next
          case nk: False
          let ?info = "info\<lparr>num_cmps := num_cmps info + abseil_window_cmps m' ?pos0 key,
                              num_hops := num_hops info + 1\<rparr>"
          have "abseil_find_loop m' key off pb info = abseil_find_loop m' key off ?pb ?info"
            using ne' W' nk False
            by (subst abseil_find_loop_step) (simp add: Let_def abseil_le_size [OF le])
          then show ?thesis using f by simp
        qed
        with b le show ?thesis by simp
      qed
    qed
  qed
  from this [OF assms] show ?thesis by simp
qed

lemma abseil_find_loop_true_cmps:
  assumes "abseil_find_loop m key off pb info = Some (Inr (info', True))"
  shows "1 \<le> num_cmps info'"
proof -
  have "\<forall>info'. r = Inr (info', True) \<longrightarrow> 1 \<le> num_cmps info'"
    if "abseil_find_loop m key off pb info = Some r" for r
  proof (induction rule: abseil_find_loop.raw_induct [OF _ that])
    case (1 loop m key off pb info r)
    show ?case
    proof (intro allI impI)
      fix info' assume r: "r = Inr (info', True)"
      let ?pos0 = "pb_get pb * of_nat abseil_N + off"
      let ?W = "abseil_window m ?pos0"
      have ne: "elements m \<noteq> []" using "1.hyps" r by (auto split: if_splits)
      show "1 \<le> num_cmps info'"
      proof (cases "Some key \<in> set ?W")
        case True
        then show ?thesis using "1.hyps" r ne
          by (auto simp: Let_def abseil_window_scan(2))
      next
        case False
        then obtain info'' where "loop m key off (snd (pb_next pb (abseil_mask m))) info'' = Some r"
          using "1.hyps" r ne
          by (auto simp: Let_def abseil_window_scan(2) split: if_splits)
        from "1.IH" [OF this] r show ?thesis by simp
      qed
    qed
  qed
  from this [OF assms] show ?thesis by simp
qed

lemma abseil_insert_then_find:
  assumes "abseil_insert m key = Some (Inr (m', b))"
  shows "\<exists>info. abseil_find m' key = Some (Inr (info, True)) \<and> 1 \<le> num_cmps info"
proof -
  from assms obtain info0 found where f: "abseil_find m key = Some (Inr (info0, found))"
    by (auto simp: abseil_insert_def split: option.splits sum.splits)
  show ?thesis
  proof (cases found)
    case True
    then have "m' = m" using assms f by (simp add: abseil_insert_def)
    moreover have "1 \<le> num_cmps info0"
      using f True abseil_find_loop_true_cmps by (auto simp: abseil_find_def Let_def)
    ultimately show ?thesis using f True by simp
  next
    case False
    let ?pos = "abseil_position_for m key"
    have il: "abseil_insert_loop m key (?pos mod of_nat abseil_N)
                (prober_init (?pos div of_nat abseil_N)) = Some (Inr (m', b))"
      using assms f False by (simp add: abseil_insert_def Let_def)
    from abseil_insert_loop_then_find [OF il]
    have le: "abseil_le m m'"
      and fl: "\<exists>info'. abseil_find_loop m' key (?pos mod of_nat abseil_N)
                 (prober_init (?pos div of_nat abseil_N)) \<lparr>num_hops = 0, num_cmps = 0\<rparr>
                   = Some (Inr (info', True)) \<and> 1 \<le> num_cmps info'"
      by auto
    have "abseil_position_for m' key = ?pos"
      by (simp add: abseil_position_for_def abseil_le_size [OF le])
    then show ?thesis using fl by (simp add: abseil_find_def Let_def)
  qed
qed

section \<open>Insertions only add\<close>

lemma boost_insert_loop_le:
  assumes "boost_insert_loop m key pb = Some (Inr (m', b))"
  shows "boost_le m m'"
proof -
  have "\<forall>m' b. r = Inr (m', b) \<longrightarrow> boost_le m m'"
    if "boost_insert_loop m key pb = Some r" for r
  proof (induction rule: boost_insert_loop.raw_induct [OF _ that])
    case (1 loop m key pb r)
    show ?case
    proof (intro allI impI)
      fix m' b assume r: "r = Inr (m', b)"
      have ir: "boost_in_range m pb"
        using "1.hyps" r by (auto simp: boost_in_range_def split: if_splits)
      show "boost_le m m'"
      proof (cases "boost_group_full (boost_group_at m pb)")
        case False
        then have "m' = boost_place m (unat (pb_get pb)) key"
          using "1.hyps" r ir
          by (simp add: Let_def boost_in_range_def boost_group_full_def boost_group_at_def
                boost_place_def)
        moreover have "boost_le m (boost_place m (unat (pb_get pb)) key)"
          using ir False
          by (intro boost_le_place)
             (simp_all add: boost_in_range_def boost_group_full_def boost_group_at_def)
        ultimately show ?thesis by simp
      next
        case True
        let ?m = "boost_mark m (unat (pb_get pb)) key"
        have "loop ?m key (snd (pb_next pb (boost_mask m))) = Some r"
          using "1.hyps" ir True
          by (simp add: Let_def boost_in_range_def boost_group_full_def boost_group_at_def
                boost_mark_def)
        from "1.IH" [OF this] r have "boost_le ?m m'" by simp
        with boost_le_mark [of m] show ?thesis by (rule boost_le_trans)
      qed
    qed
  qed
  from this [OF assms] show ?thesis by simp
qed

lemma boost_insert_le:
  assumes "boost_insert m key = Some (Inr (m', b))"
  shows "boost_le m m'"
proof -
  from assms obtain info found where f: "boost_find m key = Some (Inr (info, found))"
    by (auto simp: boost_insert_def split: option.splits sum.splits)
  show ?thesis
  proof (cases found)
    case True
    then show ?thesis using assms f by (simp add: boost_insert_def boost_le_refl)
  next
    case False
    then obtain p where "boost_insert_loop m key (prober_init p) = Some (Inr (m', b))"
      using assms f by (auto simp: boost_insert_def split: sum.splits)
    then show ?thesis by (rule boost_insert_loop_le)
  qed
qed

lemma boost_insert_all_le:
  "boost_insert_all m keys = Some (Inr m') \<Longrightarrow> boost_le m m'"
proof (induction keys arbitrary: m)
  case Nil
  then show ?case by (simp add: boost_le_refl)
next
  case (Cons key keys)
  from Cons.prems obtain m1 b where
    1: "boost_insert m key = Some (Inr (m1, b))" and 2: "boost_insert_all m1 keys = Some (Inr m')"
    by (auto split: option.splits sum.splits)
  from boost_insert_le [OF 1] Cons.IH [OF 2] show ?case by (rule boost_le_trans)
qed

lemma std_count_if_all: "std_count_if xs 0 (length xs) p = length (filter p xs)"
  by (simp add: std_count_if_eq)

lemma length_filter_mono2:
  "list_all2 (\<lambda>x y. P x \<longrightarrow> Q y) xs ys \<Longrightarrow> length (filter P xs) \<le> length (filter Q ys)"
  by (induction rule: list_all2_induct) auto

lemma boost_pr_group_full_mono:
  assumes "boost_le m m'"
  shows "(boost_pr_group_full m = Finite p \<longrightarrow>
            (\<exists>p'. boost_pr_group_full m' = Finite p' \<and> p \<le> p'))
       \<and> (boost_pr_group_full m = NotFinite \<longrightarrow> boost_pr_group_full m' = NotFinite)"
proof -
  have len: "length (groups m') = length (groups m)" using assms by (rule boost_le_length)
  have "list_all2 (\<lambda>g g'. g_n g = boost_N \<longrightarrow> g_n g' = boost_N) (groups m) (groups m')"
    using assms unfolding boost_le_def
    by (auto elim!: list_all2_mono simp: boost_group_le_def)
  then have q: "length (filter (\<lambda>g. g_n g = boost_N) (groups m))
               \<le> length (filter (\<lambda>g. g_n g = boost_N) (groups m'))"
    by (rule length_filter_mono2)
  have e: "boost_pr_group_full m
      = float_div (length (filter (\<lambda>g. g_n g = boost_N) (groups m))) (length (groups m))"
    by (simp add: boost_pr_group_full_def std_count_if_all)
  have "boost_pr_group_full m'
      = float_div (length (filter (\<lambda>g. g_n g = boost_N) (groups m'))) (length (groups m'))"
    by (simp add: boost_pr_group_full_def std_count_if_all)
  then have e': "boost_pr_group_full m'
      = float_div (length (filter (\<lambda>g. g_n g = boost_N) (groups m'))) (length (groups m))"
    by (simp only: len)
  show ?thesis
  proof (cases "groups m = []")
    case True
    then show ?thesis by (simp add: e e' float_div_zero)
  next
    case False
    then have "0 < length (groups m)" by simp
    from float_div_mono [OF q this] show ?thesis by (auto simp: e e')
  qed
qed

lemma abseil_insert_le:
  assumes "abseil_insert m key = Some (Inr (m', b))"
  shows "abseil_le m m'"
proof -
  from assms obtain info found where f: "abseil_find m key = Some (Inr (info, found))"
    by (auto simp: abseil_insert_def split: option.splits sum.splits)
  show ?thesis
  proof (cases found)
    case True
    then show ?thesis using assms f by (simp add: abseil_insert_def abseil_le_refl)
  next
    case False
    then show ?thesis
      using assms f abseil_insert_loop_then_find
      by (auto simp: abseil_insert_def Let_def)
  qed
qed

lemma abseil_insert_all_le:
  "abseil_insert_all m keys = Some (Inr m') \<Longrightarrow> abseil_le m m'"
proof (induction keys arbitrary: m)
  case Nil
  then show ?case by (simp add: abseil_le_refl)
next
  case (Cons key keys)
  from Cons.prems obtain m1 b where
    1: "abseil_insert m key = Some (Inr (m1, b))" and 2: "abseil_insert_all m1 keys = Some (Inr m')"
    by (auto split: option.splits sum.splits)
  from abseil_insert_le [OF 1] Cons.IH [OF 2] show ?case by (rule abseil_le_trans)
qed

lemma abseil_size_nonempty: "p < abseil_size m \<Longrightarrow> elements m \<noteq> []"
  by (auto simp: abseil_size_def)

lemma abseil_pr_group_full_loop_mono:
  "abseil_le m m' \<Longrightarrow> acc \<le> acc' \<Longrightarrow>
   abseil_pr_group_full_loop m p acc \<le> abseil_pr_group_full_loop m' p acc'"
proof (induction m p acc arbitrary: acc' rule: abseil_pr_group_full_loop.induct)
  case (1 m p num_full)
  note le = "1.prems"(1)
  show ?case
  proof (cases "p < abseil_size m")
    case False
    then show ?thesis
      using "1.prems"(2)
      by (subst abseil_pr_group_full_loop.simps, subst (2) abseil_pr_group_full_loop.simps)
         (simp add: abseil_le_size [OF le])
  next
    case True
    then have ne: "elements m \<noteq> []" by (rule abseil_size_nonempty)
    let ?full = "\<lambda>m. abseil_find_in m p (p + of_nat abseil_N) None = p + of_nat abseil_N"
    let ?a = "if ?full m then num_full + 1 else num_full"
    let ?a' = "if ?full m' then acc' + 1 else acc'"
    have "?full m \<Longrightarrow> ?full m'"
      using abseil_le_window [OF le ne, of p] abseil_window_scan(2) [of m p None]
        abseil_window_scan(2) [of m' p None] by auto
    then have "?a \<le> ?a'" using "1.prems"(2) by auto
    from "1.IH" [OF True le this] show ?thesis
      using True
      by (subst abseil_pr_group_full_loop.simps, subst (2) abseil_pr_group_full_loop.simps)
         (simp add: abseil_le_size [OF le])
  qed
qed

lemma abseil_pr_group_full_mono:
  assumes "abseil_le m m'"
  shows "(abseil_pr_group_full m = Finite p \<longrightarrow>
            (\<exists>p'. abseil_pr_group_full m' = Finite p' \<and> p \<le> p'))
       \<and> (abseil_pr_group_full m = NotFinite \<longrightarrow> abseil_pr_group_full m' = NotFinite)"
proof -
  have len: "length (elements m') = length (elements m)" using assms by (rule abseil_le_length)
  have q: "abseil_pr_group_full_loop m 0 0 \<le> abseil_pr_group_full_loop m' 0 0"
    using assms by (rule abseil_pr_group_full_loop_mono) simp
  show ?thesis
  proof (cases "elements m = []")
    case True
    then show ?thesis by (simp add: abseil_pr_group_full_def len float_div_zero)
  next
    case False
    then have "0 < length (elements m)" by simp
    from float_div_mono [OF q this] show ?thesis
      by (auto simp: abseil_pr_group_full_def len)
  qed
qed

section \<open>Variant A: termination of insertion in tables of \<open>2^k\<close> groups\<close>

lemma bit_width_pow2: "bit_width (2 ^ k - 1) = k"
proof (induction k)
  case 0
  show ?case by (simp add: bit_width.simps)
next
  case (Suc k)
  have "(2 ^ Suc k - 1) div 2 = (2 ^ k - 1 :: nat)" by simp
  moreover have "(2 ^ Suc k - 1 :: nat) \<noteq> 0"
    using one_less_power [of "2::nat" "Suc k"] by simp
  ultimately show ?case using Suc.IH by (subst bit_width.simps) simp
qed

lemma list_all_update: "list_all P xs \<Longrightarrow> P y \<Longrightarrow> list_all P (xs[i := y])"
  unfolding list_all_iff using set_update_subset_insert [of xs i y] by auto

lemma boost_marks_on_full_mark:
  "boost_marks_on_full m \<Longrightarrow> boost_walks_past m pb \<Longrightarrow>
   boost_marks_on_full (boost_mark m (unat (pb_get pb)) key)"
  unfolding boost_marks_on_full_def boost_mark_def
  by (simp, rule list_all_update)
     (simp_all add: boost_walks_past_def boost_group_at_def boost_group_full_def)

lemma boost_marks_on_full_place:
  assumes "boost_marks_on_full m" "i < length (groups m)" "\<not> boost_group_full (groups m ! i)"
  shows "boost_marks_on_full (boost_place m i key)"
proof -
  have "groups m ! i \<in> set (groups m)" using assms(2) by simp
  then have "g_overflow (groups m ! i) = 0"
    using assms(1,3) by (auto simp: boost_marks_on_full_def list_all_iff)
  then show ?thesis
    using assms(1) unfolding boost_marks_on_full_def boost_place_def
    by (simp, intro list_all_update) simp_all
qed

lemma boost_insert_loop_marks_on_full:
  assumes "boost_insert_loop m key pb = Some (Inr (m', b))" and "boost_marks_on_full m"
  shows "boost_marks_on_full m'"
proof -
  have "\<forall>m' b. r = Inr (m', b) \<longrightarrow> boost_marks_on_full m'"
    if "boost_insert_loop m key pb = Some r" "boost_marks_on_full m" for r
    using that(2)
  proof (induction rule: boost_insert_loop.raw_induct [OF _ that(1)])
    case (1 loop m key pb r)
    show ?case
    proof (intro allI impI)
      fix m' b assume r: "r = Inr (m', b)"
      have ir: "boost_in_range m pb"
        using "1.hyps" r by (auto simp: boost_in_range_def split: if_splits)
      show "boost_marks_on_full m'"
      proof (cases "boost_group_full (boost_group_at m pb)")
        case False
        then have "m' = boost_place m (unat (pb_get pb)) key"
          using "1.hyps" r ir
          by (simp add: Let_def boost_in_range_def boost_group_full_def boost_group_at_def
                boost_place_def)
        moreover have "boost_marks_on_full (boost_place m (unat (pb_get pb)) key)"
          using "1.prems" ir False
          by (intro boost_marks_on_full_place) (simp_all add: boost_in_range_def boost_group_at_def)
        ultimately show ?thesis by simp
      next
        case True
        let ?m = "boost_mark m (unat (pb_get pb)) key"
        have wp: "boost_walks_past m pb" using ir True by (simp add: boost_walks_past_def)
        have "loop ?m key (snd (pb_next pb (boost_mask m))) = Some r"
          using "1.hyps" ir True
          by (simp add: Let_def boost_in_range_def boost_group_full_def boost_group_at_def
                boost_mark_def)
        from "1.IH" [OF this boost_marks_on_full_mark [OF "1.prems" wp]] r
        show ?thesis by simp
      qed
    qed
  qed
  from this [OF assms] show ?thesis by simp
qed

text \<open>The tables the program can build satisfy the invariant.\<close>

lemma boost_inv_new: "boost_inv (boost_new capacity)"
  by (simp add: boost_inv_def boost_wf_def boost_marks_on_full_def boost_new_def list_all_iff)

lemma boost_inv_insert:
  assumes "boost_inv m" and "boost_insert m key = Some (Inr (m', b))"
  shows "boost_inv m'"
proof -
  have le: "boost_le m m'" using assms(2) by (rule boost_insert_le)
  have wf: "boost_wf m'" using assms(1) le by (auto simp: boost_inv_def intro: boost_wf_le)
  have sh: "shift m' = 64 - bit_width (unat (boost_mask m'))"
    using assms(1) le by (simp add: boost_inv_def boost_le_length) (simp add: boost_le_def)
  from assms(2) obtain info found where f: "boost_find m key = Some (Inr (info, found))"
    by (auto simp: boost_insert_def split: option.splits sum.splits)
  have "boost_marks_on_full m'"
  proof (cases found)
    case True
    then show ?thesis using assms f by (simp add: boost_insert_def boost_inv_def)
  next
    case False
    then obtain p where "boost_insert_loop m key (prober_init p) = Some (Inr (m', b))"
      using assms(2) f by (auto simp: boost_insert_def split: sum.splits)
    then show ?thesis using assms(1) by (auto simp: boost_inv_def intro: boost_insert_loop_marks_on_full)
  qed
  with wf sh show ?thesis by (simp add: boost_inv_def)
qed

text \<open>A table of \<open>2^k\<close> groups, \<open>1 \<le> k < 64\<close>.\<close>

lemma boost_pow2_mask:
  assumes "length (groups m) = 2 ^ k" "k < 64"
  shows "boost_mask m = mask k"
  using assms by (simp add: mask_eq_exp_minus_1)

lemma boost_pow2_shift:
  assumes "boost_inv m" "length (groups m) = 2 ^ k" "k < 64"
  shows "shift m = 64 - k"
proof -
  have k: "k \<le> 64" using assms(3) by simp
  have u: "unat (boost_mask m) = 2 ^ k - 1"
    by (simp only: boost_pow2_mask [OF assms(2,3)] unat_mask_64 [OF k])
  have "shift m = 64 - bit_width (unat (boost_mask m))"
    using assms(1) by (simp add: boost_inv_def)
  then show ?thesis by (simp only: u bit_width_pow2)
qed

lemma drop_bit_in_table:
  assumes "1 \<le> k" "k < 64"
  shows "drop_bit (64 - k) (key :: size_t) \<le> mask k"
proof -
  have "unat key < 2 ^ 64" using unsigned_less [of key, where 'a = nat] by simp
  also have "(2::nat) ^ 64 = 2 ^ k * 2 ^ (64 - k)"
    using assms by (simp add: power_add [symmetric])
  finally have "unat key div 2 ^ (64 - k) < 2 ^ k" by (rule less_mult_imp_div_less)
  moreover have "unat (drop_bit (64 - k) key) = drop_bit (64 - k) (unat key)"
    by (rule unat_drop_bit_eq)
  moreover have "drop_bit (64 - k) (unat key) = unat key div 2 ^ (64 - k)"
    by (rule drop_bit_eq_div)
  ultimately have "unat (drop_bit (64 - k) key) < 2 ^ k" by (simp only:)
  then show ?thesis using assms by (simp add: le_mask_iff_unat)
qed

lemma boost_pow2_position:
  assumes "boost_inv m" "length (groups m) = 2 ^ k" "1 \<le> k" "k < 64"
  shows "boost_position_for m key = Inr (drop_bit (shift m) key)"
    and "drop_bit (shift m) key \<le> mask k"
  using assms drop_bit_in_table [of k key]
  by (simp_all add: boost_pow2_shift boost_position_for_def)

lemma boost_pow2_probe:
  assumes "boost_inv m" "length (groups m) = 2 ^ k" "1 \<le> k" "k < 64"
  shows "pb_get (boost_probe m key i) = (drop_bit (shift m) key + of_nat (tri i)) AND mask k"
    and "boost_in_range m (boost_probe m key i)"
proof -
  have k: "k \<le> 64" using assms(4) by simp
  show g: "pb_get (boost_probe m key i) = (drop_bit (shift m) key + of_nat (tri i)) AND mask k"
    unfolding boost_probe_def pb_get_def boost_pow2_mask [OF assms(2,4)]
    using boost_pow2_position(2) [OF assms] k by (rule probe_pos_init)
  have "unat ((drop_bit (shift m) key + of_nat (tri i)) AND mask k :: size_t) < 2 ^ k"
    by (simp add: unat_and_mask)
  then show "boost_in_range m (boost_probe m key i)"
    by (simp add: boost_in_range_def g assms(2))
qed

text \<open>Within the first \<open>2^k\<close> probes the sequence meets every group, so it meets a
  group with room when there is one; the first such probe is taken.\<close>

lemma boost_pow2_first_room:
  assumes "boost_inv m" "length (groups m) = 2 ^ k" "1 \<le> k" "k < 64"
    and "\<not> list_all boost_group_full (groups m)"
  shows "\<exists>j<2 ^ k. (\<forall>i<j. boost_group_full (boost_group_at m (boost_probe m key i)))
                 \<and> \<not> boost_group_full (boost_group_at m (boost_probe m key j))"
proof -
  from assms(5) obtain x where x: "x < length (groups m)" "\<not> boost_group_full (groups m ! x)"
    by (auto simp: list_all_length)
  have k: "k \<le> 64" using assms(4) by simp
  have "(2::nat) ^ k < 2 ^ 64"
    using assms(4) by (intro power_strict_increasing) simp_all
  with x(1) assms(2) have "x < 2 ^ 64" by (simp only: order_less_trans)
  then have "unat (of_nat x :: size_t) = x" by (rule unat_of_nat_64)
  then have xw: "(of_nat x :: size_t) \<le> mask k" "unat (of_nat x :: size_t) = x"
    using x(1) assms(2) k by (simp_all add: le_mask_iff_unat)
  from probe_reaches_every_index [OF k xw(1), of "drop_bit (shift m) key"]
  obtain i where i: "i < 2 ^ k" "(drop_bit (shift m) key + of_nat (tri i)) AND mask k = of_nat x"
    by blast
  have "\<not> boost_group_full (boost_group_at m (boost_probe m key i))"
    using x(2) by (simp add: boost_group_at_def boost_pow2_probe(1) [OF assms(1-4)] i(2) xw(2))
  then have ex: "\<exists>i. \<not> boost_group_full (boost_group_at m (boost_probe m key i))" by blast
  define j where "j = (LEAST i. \<not> boost_group_full (boost_group_at m (boost_probe m key i)))"
  have 1: "\<not> boost_group_full (boost_group_at m (boost_probe m key j))"
    unfolding j_def using ex by (rule LeastI_ex)
  have 2: "\<forall>i<j. boost_group_full (boost_group_at m (boost_probe m key i))"
    unfolding j_def using not_less_Least by blast
  have "j \<le> i"
    unfolding j_def
    using \<open>\<not> boost_group_full (boost_group_at m (boost_probe m key i))\<close> by (rule Least_le)
  then have "j < 2 ^ k" using i(1) by (rule le_less_trans)
  with 1 2 show ?thesis by blast
qed

text \<open>Where a lookup that returns has stopped, and with what.\<close>

lemma boost_find_loop_result:
  assumes "boost_wf m" and "boost_find_loop m key pb info = Some r"
  shows "\<exists>j. (\<forall>i<j. boost_passes m key (pb_advance i (boost_mask m) pb))
           \<and> (boost_absent_here m key (pb_advance j (boost_mask m) pb)
                \<and> (\<exists>info'. r = Inr (info', False) \<and> num_hops info' = num_hops info + j)
              \<or> boost_found_here m key (pb_advance j (boost_mask m) pb)
                \<and> (\<exists>info'. r = Inr (info', True) \<and> num_hops info' = num_hops info + j)
              \<or> \<not> boost_in_range m (pb_advance j (boost_mask m) pb) \<and> r = Inl OutOfRange)"
proof -
  from boost_find_loop_stops [OF assms(2,1)] obtain j where
    j: "\<forall>i<j. boost_passes m key (pb_advance i (boost_mask m) pb)"
       "\<not> boost_passes m key (pb_advance j (boost_mask m) pb)" by blast
  let ?pb = "pb_advance j (boost_mask m) pb"
  let ?info = "boost_passed j m key pb info"
  have e: "boost_find_loop m key ?pb ?info = Some r"
    using boost_find_loop_passed [OF assms(1) j(1), of info] assms(2) by simp
  from boost_cases [of m key ?pb] j(2)
  consider "boost_absent_here m key ?pb" | "boost_found_here m key ?pb" | "\<not> boost_in_range m ?pb"
    by blast
  then show ?thesis
  proof cases
    case 1
    with e have "\<exists>info'. r = Inr (info', False) \<and> num_hops info' = num_hops info + j"
      by (auto simp: boost_find_loop_absent [OF assms(1)] num_hops_boost_passed)
    with 1 j(1) show ?thesis by blast
  next
    case 2
    with e have "\<exists>info'. r = Inr (info', True) \<and> num_hops info' = num_hops info + j"
      by (auto simp: boost_find_loop_found [OF assms(1)] num_hops_boost_passed)
    with 2 j(1) show ?thesis by blast
  next
    case 3
    with e have "r = Inl OutOfRange" by (simp add: boost_find_loop_out_of_range)
    with 3 j(1) show ?thesis by blast
  qed
qed

lemma boost_find_loop_absent_after:
  assumes "boost_wf m"
    and "\<forall>i<j. boost_passes m key (pb_advance i (boost_mask m) pb)"
    and "boost_absent_here m key (pb_advance j (boost_mask m) pb)"
  shows "\<exists>info'. boost_find_loop m key pb info = Some (Inr (info', False))
               \<and> num_hops info' = num_hops info + j"
  using boost_find_loop_passed [OF assms(1,2), of info] assms(3)
  by (simp add: boost_find_loop_absent [OF assms(1)] num_hops_boost_passed)

text \<open>A lookup of a key that is in no group returns not found as soon as the probe
  sequence meets a group, inside the table, whose marker bit for the key is clear.\<close>

lemma boost_find_loop_absent_terminates:
  assumes "boost_wf m"
    and "\<forall>i. boost_in_range m (pb_advance i (boost_mask m) pb)
             \<and> key \<notin> set (boost_group_keys (boost_group_at m (pb_advance i (boost_mask m) pb)))"
    and "\<not> boost_group_marked (boost_group_at m (pb_advance j (boost_mask m) pb)) key"
  shows "\<exists>info'. boost_find_loop m key pb info = Some (Inr (info', False))"
proof -
  let ?P = "\<lambda>i. \<not> boost_passes m key (pb_advance i (boost_mask m) pb)"
  define j0 where "j0 = (LEAST i. ?P i)"
  have "?P j" using assms(3) by (simp add: boost_passes_def)
  then have 1: "?P j0" unfolding j0_def by (rule LeastI)
  have 2: "\<forall>i<j0. boost_passes m key (pb_advance i (boost_mask m) pb)"
    unfolding j0_def using not_less_Least by blast
  have "boost_absent_here m key (pb_advance j0 (boost_mask m) pb)"
    using 1 assms(2) by (auto simp: boost_passes_def boost_absent_here_def)
  from boost_find_loop_absent_after [OF assms(1) 2 this, of info] show ?thesis by blast
qed

lemma boost_absent_group:
  "boost_absent m key \<Longrightarrow> boost_in_range m pb \<Longrightarrow>
   key \<notin> set (boost_group_keys (boost_group_at m pb))"
  by (simp add: boost_absent_def list_all_length boost_in_range_def boost_group_at_def)

lemma boost_unmarked_group:
  assumes "boost_marks_on_full m" "boost_in_range m pb" "\<not> boost_group_full (boost_group_at m pb)"
  shows "\<not> boost_group_marked (boost_group_at m pb) key"
proof -
  have "g_overflow (boost_group_at m pb) = 0"
    using assms by (auto simp: boost_marks_on_full_def list_all_length boost_in_range_def
        boost_group_at_def)
  then show ?thesis by (simp add: boost_group_marked_def)
qed

lemma boost_insert_terminates:
  assumes "boost_inv m" "length (groups m) = 2 ^ k" "1 \<le> k" "k < 64"
    and "boost_absent m key" and "\<not> list_all boost_group_full (groups m)"
  shows "\<exists>j m'. j < 2 ^ k
           \<and> boost_insert m key = Some (Inr (m', True))
           \<and> (\<forall>i<j. boost_group_full (boost_group_at m (boost_probe m key i)))
           \<and> \<not> boost_group_full (boost_group_at m (boost_probe m key j))
           \<and> boost_group_keys (boost_group_at m' (boost_probe m key j))
               = boost_group_keys (boost_group_at m (boost_probe m key j)) @ [key]"
proof -
  let ?p0 = "drop_bit (shift m) key"
  let ?pb = "prober_init ?p0"
  have wf: "boost_wf m" and mf: "boost_marks_on_full m"
    using assms(1) by (simp_all add: boost_inv_def)
  note ir = boost_pow2_probe(2) [OF assms(1-4), of key]
  from boost_pow2_first_room [OF assms(1-4,6), of key] obtain j where
    j: "j < 2 ^ k" "\<forall>i<j. boost_group_full (boost_group_at m (boost_probe m key i))"
       "\<not> boost_group_full (boost_group_at m (boost_probe m key j))" by blast
  have pos: "boost_position_for m key = Inr ?p0" by (rule boost_pow2_position(1) [OF assms(1-4)])
  have a: "\<forall>i. boost_in_range m (pb_advance i (boost_mask m) ?pb)
             \<and> key \<notin> set (boost_group_keys (boost_group_at m (pb_advance i (boost_mask m) ?pb)))"
    using ir boost_absent_group [OF assms(5)] by (simp add: boost_probe_def)
  have b: "\<not> boost_group_marked (boost_group_at m (pb_advance j (boost_mask m) ?pb)) key"
    using boost_unmarked_group [OF mf ir [of j]] j(3) by (simp add: boost_probe_def)
  from boost_find_loop_absent_terminates [OF wf a b, of "\<lparr>num_hops = 0, num_cmps = 0\<rparr>"]
  obtain info where f: "boost_find m key = Some (Inr (info, False))"
    by (auto simp: boost_find_def pos)
  have w: "\<forall>i<j. boost_walks_past m (pb_advance i (boost_mask m) ?pb)"
    using j(2) ir by (simp add: boost_walks_past_def boost_probe_def)
  from boost_insert_loop_places [OF wf w, of key] ir [of j] j(3)
  obtain m' where m': "boost_insert_loop m key ?pb = Some (Inr (m', True))"
     "boost_group_keys (boost_group_at m' (pb_advance j (boost_mask m) ?pb))
        = boost_group_keys (boost_group_at m (pb_advance j (boost_mask m) ?pb)) @ [key]"
    by (auto simp: boost_probe_def)
  have "boost_insert m key = Some (Inr (m', True))"
    using f pos m'(1) by (simp add: boost_insert_def)
  with j m'(2) show ?thesis by (auto simp: boost_probe_def)
qed

lemma boost_insert_diverges:
  assumes "boost_inv m" "length (groups m) = 2 ^ k" "1 \<le> k" "k < 64"
    and "boost_absent m key" and "list_all boost_group_full (groups m)"
  shows "boost_insert m key = None"
proof -
  let ?p0 = "drop_bit (shift m) key"
  let ?pb = "prober_init ?p0"
  let ?i0 = "\<lparr>num_hops = 0, num_cmps = 0\<rparr>"
  have wf: "boost_wf m" using assms(1) by (simp add: boost_inv_def)
  have ir: "boost_in_range m (pb_advance i (boost_mask m) ?pb)" for i
    using boost_pow2_probe(2) [OF assms(1-4), of key i] by (simp add: boost_probe_def)
  have pos: "boost_position_for m key = Inr ?p0" by (rule boost_pow2_position(1) [OF assms(1-4)])
  have full: "boost_walks_past m (pb_advance i (boost_mask m) ?pb)" for i
    using ir [of i] assms(6)
    by (simp add: boost_walks_past_def list_all_length boost_in_range_def boost_group_at_def)
  have il: "boost_insert_loop m key ?pb = None"
  proof (cases "boost_insert_loop m key ?pb")
    case None
    then show ?thesis .
  next
    case (Some r)
    from boost_insert_loop_stops [OF this] full show ?thesis by blast
  qed
  show ?thesis
  proof (cases "boost_find_loop m key ?pb ?i0")
    case None
    then show ?thesis by (simp add: boost_insert_def boost_find_def pos)
  next
    case (Some r)
    from boost_find_loop_result [OF wf this] obtain j info' where
      "boost_absent_here m key (pb_advance j (boost_mask m) ?pb) \<and> r = Inr (info', False)
       \<or> boost_found_here m key (pb_advance j (boost_mask m) ?pb)
       \<or> \<not> boost_in_range m (pb_advance j (boost_mask m) ?pb)"
      by blast
    moreover have "\<not> boost_found_here m key (pb_advance j (boost_mask m) ?pb)"
      using boost_absent_group [OF assms(5) ir [of j]] by (simp add: boost_found_here_def)
    ultimately have "r = Inr (info', False)" using ir [of j] by blast
    then show ?thesis using Some il by (simp add: boost_insert_def boost_find_def pos)
  qed
qed

section \<open>Variant B: what the saturation count counts\<close>

lemma abseil_pr_group_full_loop_eq:
  assumes "length (elements m) < 2 ^ 64"
  shows "p \<le> length (elements m) \<Longrightarrow>
         abseil_pr_group_full_loop m (of_nat p) acc
           = acc + length (filter (\<lambda>q. None \<notin> set (abseil_window m (of_nat q)))
                            [p..<length (elements m)])"
proof (induction "length (elements m) - p" arbitrary: p acc)
  case 0
  then have p: "p = length (elements m)" by simp
  have "\<not> (of_nat p :: size_t) < abseil_size m" by (simp add: p abseil_size_def)
  then show ?case by (subst abseil_pr_group_full_loop.simps) (simp add: p)
next
  case (Suc d)
  then have lt: "p < length (elements m)" by simp
  then have p64: "p < 2 ^ 64" using assms by simp
  have "(of_nat p :: size_t) < abseil_size m"
    using lt by (simp add: abseil_size_def word_less_nat_alt unat_of_nat_64 [OF p64]
        unat_of_nat_64 [OF assms])
  moreover have full:
    "(abseil_find_in m (of_nat p) (of_nat p + of_nat abseil_N) None = of_nat p + of_nat abseil_N)
       = (None \<notin> set (abseil_window m (of_nat p)))"
    using abseil_window_scan(2) [of m "of_nat p" None] by auto
  ultimately have "abseil_pr_group_full_loop m (of_nat p) acc
      = abseil_pr_group_full_loop m (of_nat p + 1)
          (if None \<notin> set (abseil_window m (of_nat p)) then acc + 1 else acc)"
    by (subst abseil_pr_group_full_loop.simps) (simp only: full if_True)
  also have "(of_nat p + 1 :: size_t) = of_nat (Suc p)" by simp
  also have "abseil_pr_group_full_loop m (of_nat (Suc p))
          (if None \<notin> set (abseil_window m (of_nat p)) then acc + 1 else acc)
      = (if None \<notin> set (abseil_window m (of_nat p)) then acc + 1 else acc)
      + length (filter (\<lambda>q. None \<notin> set (abseil_window m (of_nat q)))
                  [Suc p..<length (elements m)])"
    using Suc.hyps(2) lt by (intro Suc.hyps(1)) simp_all
  also have "\<dots> = acc + length (filter (\<lambda>q. None \<notin> set (abseil_window m (of_nat q)))
                  [p..<length (elements m)])"
    using lt by (simp add: upt_conv_Cons)
  finally show ?case .
qed

lemma abseil_pr_group_full_eq:
  assumes "length (elements m) < 2 ^ 64"
  shows "abseil_pr_group_full m
       = float_div (length (abseil_full_window_starts m)) (length (elements m))"
  using abseil_pr_group_full_loop_eq [OF assms, of 0 0]
  by (simp add: abseil_pr_group_full_def abseil_full_window_starts_def)

text \<open>In a table of \<open>2^j\<close> slots, the window at \<open>q\<close> is the 16 slots from \<open>q\<close> on,
  wrapping around at the end of the table.\<close>

lemma abseil_window_pow2:
  assumes "length (elements m) = 2 ^ j" "j < 64" "q < 2 ^ j"
  shows "abseil_window m (of_nat q) = map (\<lambda>i. elements m ! ((q + i) mod 2 ^ j)) [0..<abseil_N]"
proof -
  have k: "j \<le> 64" using assms(2) by simp
  have m: "abseil_size m - 1 = mask j"
    using assms(1) by (simp add: abseil_size_def mask_eq_exp_minus_1)
  have "(2::nat) ^ j \<le> 2 ^ 63" using assms(2) by (intro power_increasing) simp_all
  then have q: "q < 2 ^ 63" using assms(3) by simp
  have "abseil_element_at m (of_nat q + of_nat i) = elements m ! ((q + i) mod 2 ^ j)"
    if "i < abseil_N" for i
  proof -
    have "q + i < 2 ^ 64" using q that by (simp add: abseil_N_def)
    then have "unat (of_nat (q + i) :: size_t) = q + i" by (rule unat_of_nat_64)
    then show ?thesis
      by (simp add: abseil_element_at_def m unat_and_mask flip: of_nat_add)
  qed
  then show ?thesis by (simp add: abseil_window_def)
qed

section \<open>The claims about the two tables\<close>

text \<open>The example tables are states the program reaches.\<close>

lemma boost_example_reached:
  "boost_insert_all (boost_new 2) [1, 2, 3, 4, 5, 6, 7, 8, 9, 10, 11, 12, 13, 14, 15]
     = Some (Inr boost_example)"
  by code_simp

lemma boost_full_example_reached:
  "boost_insert_all boost_example
     [0x8000000000000001, 0x8000000000000002, 0x8000000000000003,
      0x8000000000000004, 0x8000000000000005, 0x8000000000000006,
      0x8000000000000007, 0x8000000000000008, 0x8000000000000009,
      0x800000000000000A, 0x800000000000000B, 0x800000000000000C,
      0x800000000000000D, 0x800000000000000E, 0x800000000000000F]
     = Some (Inr boost_full_example)"
  by code_simp

subsection \<open>Saturation probability of Variant B\<close>

text \<open>As the specification words the property, \<^verbatim>\<open>pr_group_full\<close> is the fraction of the
  \<open>capacity\<close> aligned windows without an empty slot. In \<open>abseil_run_example\<close>, which 16
  insertions into an empty table of capacity 2 produce, neither aligned window is full,
  so that fraction is 0; the source returns \<open>1/32\<close>, for the full window that starts at
  slot 8.\<close>

theorem abseil_pr_group_full_not_aligned:
  "abseil_insert_all (abseil_new 2)
     [1024, 1025, 1026, 1027, 1028, 1029, 1030, 1031, 1032, 1033, 1034, 1035, 1036, 1037,
      1038, 1039] = Some (Inr abseil_run_example)
   \<and> abseil_pr_group_full abseil_run_example = Finite (1 / 32)
   \<and> spec_aligned_full_fraction abseil_run_example = 0"
proof -
  have a: "abseil_insert_all (abseil_new 2)
     [1024, 1025, 1026, 1027, 1028, 1029, 1030, 1031, 1032, 1033, 1034, 1035, 1036, 1037,
      1038, 1039] = Some (Inr abseil_run_example)" by code_simp
  have b: "abseil_pr_group_full abseil_run_example = Finite (1 / 32)" by code_simp
  have d: "spec_aligned_full_fraction abseil_run_example = 0" by code_simp
  from a b d show ?thesis by simp
qed

text \<open>
  \<^bold>\<open>C2 (amended).\<close> For Variant B, in every table state, \<^verbatim>\<open>pr_group_full\<close> returns the
  fraction of the \<open>capacity*16\<close> windows of 16 consecutive slots, one starting at every
  slot position \<open>0 .. capacity*16-1\<close>, that hold no empty slot, as the \<^verbatim>\<open>float\<close> quotient
  \<^verbatim>\<open>float(count)/float(slots)\<close>: the number of those start positions and the number of
  slots are converted to \<^verbatim>\<open>float\<close> and divided, each step rounded to the nearest \<^verbatim>\<open>float\<close>
  (in a table without slots the quotient is not a finite number). In a table of \<open>2^j\<close>
  slots with \<open>j < 24\<close>, as the driver builds, nothing is rounded and the result is the
  fraction \<open>count / 2^j\<close> itself. In a table of \<open>2^j\<close> slots the window at \<open>q\<close> is the
  slots \<open>q, q+1, ..., q+15\<close> taken modulo the table size.
\<close>

theorem abseil_pr_group_full_counts_every_window:
  assumes "length (elements m) < 2 ^ 64"
  shows "(elements m \<noteq> [] \<longrightarrow>
            abseil_pr_group_full m
              = Finite (float_round
                          (float_round (of_nat (length (abseil_full_window_starts m)))
                             / float_round (of_nat (length (elements m))))))
       \<and> (elements m = [] \<longrightarrow> abseil_pr_group_full m = NotFinite)
       \<and> (length (elements m) = 2 ^ j \<and> j < 24 \<longrightarrow>
            abseil_pr_group_full m
              = Finite (of_nat (length (abseil_full_window_starts m)) / 2 ^ j))
       \<and> (length (elements m) = 2 ^ j \<and> q < 2 ^ j \<longrightarrow>
            abseil_window m (of_nat q)
              = map (\<lambda>i. elements m ! ((q + i) mod 2 ^ j)) [0..<abseil_N])"
proof -
  note e = abseil_pr_group_full_eq [OF assms]
  have A: "abseil_pr_group_full m
              = Finite (float_round
                          (float_round (of_nat (length (abseil_full_window_starts m)))
                             / float_round (of_nat (length (elements m)))))"
    if "elements m \<noteq> []"
    using that by (simp add: e float_div_eq)
  have B: "abseil_pr_group_full m = NotFinite" if "elements m = []"
    using that by (simp add: e float_div_zero)
  have C: "abseil_pr_group_full m
              = Finite (of_nat (length (abseil_full_window_starts m)) / 2 ^ j)"
    if "length (elements m) = 2 ^ j \<and> j < 24"
  proof -
    have "length (abseil_full_window_starts m) \<le> length [0..<length (elements m)]"
      unfolding abseil_full_window_starts_def by (rule length_filter_le)
    then have "length (abseil_full_window_starts m) \<le> 2 ^ j" using that by simp
    also have "(2 :: nat) ^ j < 2 ^ 24" using that by (intro power_strict_increasing) simp_all
    finally have "length (abseil_full_window_starts m) < 2 ^ 24" .
    from float_div_exact [OF this, of j] that show ?thesis by (simp add: e)
  qed
  have D: "abseil_window m (of_nat q)
              = map (\<lambda>i. elements m ! ((q + i) mod 2 ^ j)) [0..<abseil_N]"
    if "length (elements m) = 2 ^ j \<and> q < 2 ^ j"
  proof -
    have "j < 64"
      using assms that
      by (simp add: power_strict_increasing_iff [of 2 j 64, symmetric]
            del: power_strict_increasing_iff)
    with abseil_window_pow2 [of m j q] that show ?thesis by auto
  qed
  from A B C D show ?thesis by blast
qed

theorem abseil_pr_group_full_counts_every_window_witness:
  "length (elements abseil_run_example) < 2 ^ 64
   \<and> length (elements abseil_run_example) = 2 ^ 5 \<and> (5::nat) < 24 \<and> (24::nat) < 2 ^ 5
   \<and> abseil_full_window_starts abseil_run_example = [8]
   \<and> abseil_pr_group_full abseil_run_example = Finite (1 / 32)
   \<and> abseil_window abseil_run_example 24
       = map (\<lambda>i. elements abseil_run_example ! ((24 + i) mod 2 ^ 5)) [0..<abseil_N]
   \<and> length (elements (abseil_new 0)) < 2 ^ 64 \<and> elements (abseil_new 0) = []
   \<and> abseil_pr_group_full (abseil_new 0) = NotFinite
   \<and> abseil_insert_all (abseil_new 3) [1, 2, 3, 4, 5, 6, 7, 8, 9, 10, 11, 12, 13, 14, 15, 16]
       = Some (Inr abseil_three_example)
   \<and> length (elements abseil_three_example) < 2 ^ 64 \<and> elements abseil_three_example \<noteq> []
   \<and> abseil_full_window_starts abseil_three_example
       = [0, 1, 2, 3, 4, 5, 6, 7, 8, 9, 10, 11, 12, 13, 14, 15, 16]
   \<and> abseil_pr_group_full abseil_three_example = Finite (11883861 / 33554432)"
proof -
  have h: "length (elements abseil_run_example) < 2 ^ 64" by (simp add: abseil_run_example_def)
  have l: "length (elements abseil_run_example) = 2 ^ 5" by (simp add: abseil_run_example_def)
  have s: "abseil_full_window_starts abseil_run_example = [8]" by code_simp
  have e: "elements (abseil_new 0) = []" by (simp add: abseil_new_def)
  have h0: "length (elements (abseil_new 0)) < 2 ^ 64" by (simp add: e)
  from abseil_pr_group_full_counts_every_window [OF h0] e
  have z: "abseil_pr_group_full (abseil_new 0) = NotFinite" by simp
  have i3: "abseil_insert_all (abseil_new 3)
      [1, 2, 3, 4, 5, 6, 7, 8, 9, 10, 11, 12, 13, 14, 15, 16] = Some (Inr abseil_three_example)"
    by code_simp
  have h3: "length (elements abseil_three_example) < 2 ^ 64"
    by (simp add: abseil_three_example_def)
  have l3: "length (elements abseil_three_example) = 48" by (simp add: abseil_three_example_def)
  have n3: "elements abseil_three_example \<noteq> []" by (simp add: abseil_three_example_def)
  have s3: "abseil_full_window_starts abseil_three_example
       = [0, 1, 2, 3, 4, 5, 6, 7, 8, 9, 10, 11, 12, 13, 14, 15, 16]" by code_simp
  have r3: "float_round (float_round 17 / float_round 48) = 11883861 / 33554432" by code_simp
  from abseil_pr_group_full_counts_every_window [OF h3] n3
  have "abseil_pr_group_full abseil_three_example
      = Finite (float_round
                  (float_round (of_nat (length (abseil_full_window_starts abseil_three_example)))
                     / float_round (of_nat (length (elements abseil_three_example)))))"
    by simp
  then have p3: "abseil_pr_group_full abseil_three_example = Finite (11883861 / 33554432)"
    by (simp add: s3 l3 r3)
  from abseil_pr_group_full_counts_every_window [OF h, of 5 24] h l s e h0 z i3 h3 n3 s3 p3
  show ?thesis by simp
qed

subsection \<open>Comparisons counted by a lookup of Variant B\<close>




subsection \<open>Comparisons counted by a lookup of Variant A\<close>

text \<open>As the specification words the property, the comparisons of a group are all its
  occupied keys with the reduced discriminant of the target, plus one for a match. In
  \<open>boost_pair_example\<close>, reached by two insertions, group 0 holds 2 and 258, which share
  the discriminant 2: that count is 3 for the lookup of 2 (2 without counting the match
  twice), and the source returns 1, because it stops counting at the match.\<close>

theorem boost_find_skips_keys_after_match:
  "boost_insert_all (boost_new 2) [2, 258] = Some (Inr boost_pair_example)
   \<and> boost_find boost_pair_example 2 = Some (Inr (\<lparr>num_hops = 0, num_cmps = 1\<rparr>, True))
   \<and> spec_boost_group_cmps (groups boost_pair_example ! 0) 2 = 3"
  by code_simp

text \<open>
  \<^bold>\<open>C4 (amended).\<close> For Variant A, for every target key and every group a lookup visits
  (a group of a table whose groups hold at most 15 keys): the comparisons added for the
  group are the number of occupied keys stored before the exact match, or of all occupied
  keys when the group holds no match, whose reduced 8-bit discriminant equals that of the
  target key, plus one for the confirming comparison when the exact match is found. The
  reduced discriminant of a key is its low byte, with the byte values 0 and 1 replaced by
  8 and 9 and every other value unchanged.
\<close>

theorem boost_find_group_accounting:
  assumes "boost_wf m" and "unat (pb_get pb) < length (groups m)"
  shows "boost_find_loop m hash pb info =
           (let g = groups m ! unat (pb_get pb);
                info' = info\<lparr>num_cmps := num_cmps info + boost_group_cmps g hash\<rparr>
            in if hash \<in> set (boost_group_keys g)
               then Some (Inr (info'\<lparr>num_cmps := num_cmps info' + 1\<rparr>, True))
               else if \<not> boost_group_marked g hash then Some (Inr (info', False))
               else boost_find_loop m hash (snd (pb_next pb (boost_mask m)))
                      (info'\<lparr>num_hops := num_hops info' + 1\<rparr>))
       \<and> unat (reduced_hash hash)
           = (let b = unat hash mod 256 in if b = 0 then 8 else if b = 1 then 9 else b)"
proof -
  have u: "unat (ucast hash :: 8 word) = unat hash mod 256"
    by (simp add: unsigned_ucast_eq take_bit_nat_def)
  have "(ucast hash :: 8 word) = 0 \<longleftrightarrow> unat (ucast hash :: 8 word) = unat (0 :: 8 word)"
    by (simp only: word_unat_eq_iff)
  then have "(ucast hash :: 8 word) = 0 \<longleftrightarrow> unat hash mod 256 = 0"
    by (simp add: u)
  moreover have "(ucast hash :: 8 word) = 1 \<longleftrightarrow> unat (ucast hash :: 8 word) = unat (1 :: 8 word)"
    by (simp only: word_unat_eq_iff)
  then have "(ucast hash :: 8 word) = 1 \<longleftrightarrow> unat hash mod 256 = 1"
    by (simp add: u)
  ultimately have "unat (reduced_hash hash)
           = (let b = unat hash mod 256 in if b = 0 then 8 else if b = 1 then 9 else b)"
    using u by (simp add: reduced_hash_def Let_def)
  with boost_find_loop_step [OF assms] show ?thesis by simp
qed

theorem boost_find_group_accounting_witness:
  "boost_wf boost_pair_example
   \<and> unat (pb_get (prober_init 0)) < length (groups boost_pair_example)
   \<and> boost_group_cmps (groups boost_pair_example ! 0) 258 = 1
   \<and> boost_find_loop boost_pair_example 258 (prober_init 0) \<lparr>num_hops = 0, num_cmps = 0\<rparr>
       = Some (Inr (\<lparr>num_hops = 0, num_cmps = 2\<rparr>, True))
   \<and> reduced_hash 256 = 8 \<and> reduced_hash 257 = 9 \<and> reduced_hash 258 = 2"
proof -
  have h1: "boost_wf boost_pair_example" by code_simp
  have h2: "unat (pb_get (prober_init 0)) < length (groups boost_pair_example)"
    by (simp add: prober_init_def pb_get_def boost_pair_example_def)
  have g: "groups boost_pair_example ! unat (pb_get (prober_init 0))
             = \<lparr>g_elements = [2, 258, 0, 0, 0, 0, 0, 0, 0, 0, 0, 0, 0, 0, 0],
                g_n = 2, g_overflow = 0\<rparr>"
    by (simp add: prober_init_def pb_get_def boost_pair_example_def)
  have k: "boost_group_keys \<lparr>g_elements = [2, 258, 0, 0, 0, 0, 0, 0, 0, 0, 0, 0, 0, 0, 0],
                g_n = 2, g_overflow = 0\<rparr> = [2, 258]" by code_simp
  have c: "boost_group_cmps \<lparr>g_elements = [2, 258, 0, 0, 0, 0, 0, 0, 0, 0, 0, 0, 0, 0, 0],
                g_n = 2, g_overflow = 0\<rparr> 258 = 1" by code_simp
  have c': "boost_group_cmps (groups boost_pair_example ! 0) 258 = 1" by code_simp
  have r: "reduced_hash 256 = 8 \<and> reduced_hash 257 = 9 \<and> reduced_hash 258 = 2" by code_simp
  from boost_find_group_accounting [OF h1 h2, of 258 "\<lparr>num_hops = 0, num_cmps = 0\<rparr>"]
  have "boost_find_loop boost_pair_example 258 (prober_init 0) \<lparr>num_hops = 0, num_cmps = 0\<rparr>
       = Some (Inr (\<lparr>num_hops = 0, num_cmps = 2\<rparr>, True))"
    by (simp add: g k c Let_def)
  with h1 h2 c' r show ?thesis by simp
qed

subsection \<open>Where a lookup of Variant A gives up, and the marks of an insertion\<close>

text \<open>As stated for every table, the property fails for the table of capacity 1 that
  the constructor builds: its single group holds no key and has no marker bit set, so it
  is the first probed group without a match and with the bit clear, yet the lookup does
  not return found=false there, because the constructor has set \<^verbatim>\<open>shift\<close> to 64 and the
  home position \<^verbatim>\<open>hash >> 64\<close> is undefined.\<close>

theorem boost_find_single_group_faults:
  "boost_wf (boost_new 1)
   \<and> length (groups (boost_new 1)) = 1
   \<and> shift (boost_new 1) = 64
   \<and> boost_absent_here (boost_new 1) 5 (boost_probe (boost_new 1) 5 0)
   \<and> boost_find (boost_new 1) 5 = Some (Inl ShiftOutOfRange)
   \<and> \<not> (\<exists>info. boost_find (boost_new 1) 5 = Some (Inr (info, False)) \<and> num_hops info = 0)"
proof -
  have a: "boost_wf (boost_new 1)" by code_simp
  have b: "length (groups (boost_new 1)) = 1" by (simp add: boost_new_def)
  have c: "shift (boost_new 1) = 64" by code_simp
  have d: "boost_absent_here (boost_new 1) 5 (boost_probe (boost_new 1) 5 0)" by code_simp
  have e: "boost_find (boost_new 1) 5 = Some (Inl ShiftOutOfRange)" by code_simp
  from a b c d e show ?thesis by simp
qed

text \<open>
  \<^bold>\<open>C5 (amended).\<close> For Variant A, in a table whose shift is below 64, as the
  constructor computes it for every capacity other than 1 (and whose groups hold at most
  15 keys): a lookup of a key returns found=false after \<open>j\<close> hops exactly when the
  \<open>j\<close>-th probed group is the first that holds no exact match and has the marker bit for
  \<open>key mod 8\<close> clear, every probed group before it holding no exact match and having the
  bit set, so that probing continued past it. And when an insertion of the key returns
  true, the bit for \<open>key mod 8\<close> is set, in the resulting table, on every full group the
  insertion walked past before it reached a group with room.
\<close>

theorem boost_find_stops_at_first_unmarked_group:
  assumes "boost_wf m" and "shift m < 64"
  shows "((\<exists>info. boost_find m key = Some (Inr (info, False)) \<and> num_hops info = j)
          \<longleftrightarrow> (\<forall>i<j. boost_passes m key (boost_probe m key i))
              \<and> boost_absent_here m key (boost_probe m key j))
       \<and> (boost_insert m key = Some (Inr (m', True)) \<longrightarrow>
            (\<exists>n. (\<forall>i<n. boost_walks_past m (boost_probe m key i)
                        \<and> boost_group_marked (boost_group_at m' (boost_probe m key i)) key)
                \<and> boost_in_range m (boost_probe m key n)
                \<and> \<not> boost_group_full (boost_group_at m (boost_probe m key n))))"
proof -
  let ?pb = "prober_init (drop_bit (shift m) key)"
  let ?i0 = "\<lparr>num_hops = 0, num_cmps = 0\<rparr>"
  have f: "boost_find m key = boost_find_loop m key ?pb ?i0"
    using assms(2) by (simp add: boost_find_def boost_position_for_def)
  have A: "(\<forall>i<j. boost_passes m key (boost_probe m key i))
              \<and> boost_absent_here m key (boost_probe m key j)"
    if "\<exists>info. boost_find m key = Some (Inr (info, False)) \<and> num_hops info = j"
  proof -
    from that obtain info where r: "boost_find_loop m key ?pb ?i0 = Some (Inr (info, False))"
        and h: "num_hops info = j" using f by auto
    from boost_find_loop_result [OF assms(1) r] obtain j' where
      "\<forall>i<j'. boost_passes m key (pb_advance i (boost_mask m) ?pb)"
      "boost_absent_here m key (pb_advance j' (boost_mask m) ?pb)"
      "num_hops info = j'" by auto
    with h show ?thesis by (simp add: boost_probe_def)
  qed
  have B: "\<exists>info. boost_find m key = Some (Inr (info, False)) \<and> num_hops info = j"
    if "(\<forall>i<j. boost_passes m key (boost_probe m key i))
              \<and> boost_absent_here m key (boost_probe m key j)"
  proof -
    from that have "\<forall>i<j. boost_passes m key (pb_advance i (boost_mask m) ?pb)"
      "boost_absent_here m key (pb_advance j (boost_mask m) ?pb)"
      by (simp_all add: boost_probe_def)
    from boost_find_loop_absent_after [OF assms(1) this, of ?i0]
    show ?thesis by (simp add: f)
  qed
  have C: "\<exists>n. (\<forall>i<n. boost_walks_past m (boost_probe m key i)
                        \<and> boost_group_marked (boost_group_at m' (boost_probe m key i)) key)
                \<and> boost_in_range m (boost_probe m key n)
                \<and> \<not> boost_group_full (boost_group_at m (boost_probe m key n))"
    if ins: "boost_insert m key = Some (Inr (m', True))"
  proof -
    from ins obtain info found where fr: "boost_find m key = Some (Inr (info, found))"
      by (auto simp: boost_insert_def split: option.splits sum.splits)
    have il: "boost_insert_loop m key ?pb = Some (Inr (m', True))"
      using ins fr assms(2)
      by (auto simp: boost_insert_def boost_position_for_def split: if_splits)
    from boost_insert_loop_stops [OF il] obtain n where
      n: "\<forall>i<n. boost_walks_past m (pb_advance i (boost_mask m) ?pb)"
         "\<not> boost_walks_past m (pb_advance n (boost_mask m) ?pb)" by blast
    have r: "boost_in_range m (pb_advance n (boost_mask m) ?pb)"
    proof (rule ccontr)
      assume "\<not> boost_in_range m (pb_advance n (boost_mask m) ?pb)"
      with n(1) have "boost_insert_loop m key ?pb = Some (Inl OutOfRange)"
        by (rule boost_insert_loop_fault)
      with il show False by simp
    qed
    with n(2) have nf: "\<not> boost_group_full (boost_group_at m (pb_advance n (boost_mask m) ?pb))"
      by (simp add: boost_walks_past_def)
    from boost_insert_loop_places [OF assms(1) n(1) r nf, of key] il
    have "\<forall>i<n. boost_group_marked (boost_group_at m' (pb_advance i (boost_mask m) ?pb)) key"
      by auto
    with n(1) r nf show ?thesis unfolding boost_probe_def by blast
  qed
  from A B C show ?thesis by blast
qed

theorem boost_find_stops_at_first_unmarked_group_witness:
  "boost_wf boost_example_16 \<and> shift boost_example_16 < 64
   \<and> boost_passes boost_example_16 24 (boost_probe boost_example_16 24 0)
   \<and> boost_absent_here boost_example_16 24 (boost_probe boost_example_16 24 1)
   \<and> (\<exists>info. boost_find boost_example_16 24 = Some (Inr (info, False)) \<and> num_hops info = 1)
   \<and> boost_wf boost_example \<and> shift boost_example < 64
   \<and> boost_insert boost_example 16 = Some (Inr (boost_example_16, True))
   \<and> (\<exists>n. boost_in_range boost_example (boost_probe boost_example 16 n)
          \<and> \<not> boost_group_full (boost_group_at boost_example (boost_probe boost_example 16 n)))"
proof -
  have h1: "boost_wf boost_example_16" by code_simp
  have h2: "shift boost_example_16 < 64" by (simp add: boost_example_16_def)
  have p0: "boost_passes boost_example_16 24 (boost_probe boost_example_16 24 0)" by code_simp
  have p1: "boost_absent_here boost_example_16 24 (boost_probe boost_example_16 24 1)" by code_simp
  have a: "\<forall>i<1. boost_passes boost_example_16 24 (boost_probe boost_example_16 24 i)"
    using p0 by simp
  have f: "\<exists>info. boost_find boost_example_16 24 = Some (Inr (info, False)) \<and> num_hops info = 1"
    using boost_find_stops_at_first_unmarked_group [OF h1 h2, of 24 1] a p1 by blast
  have h3: "boost_wf boost_example" by code_simp
  have h4: "shift boost_example < 64" by (simp add: boost_example_def)
  have i: "boost_insert boost_example 16 = Some (Inr (boost_example_16, True))" by code_simp
  have "\<exists>n. boost_in_range boost_example (boost_probe boost_example 16 n)
          \<and> \<not> boost_group_full (boost_group_at boost_example (boost_probe boost_example 16 n))"
    using boost_find_stops_at_first_unmarked_group [OF h3 h4, of 16 0 boost_example_16] i by blast
  with h1 h2 p0 p1 f h3 h4 i show ?thesis by simp
qed

subsection \<open>Insert, then find\<close>

text \<open>
  \<^bold>\<open>C7.\<close> For both variants, in every table state in which an insertion of a key
  returns (for Variant A: a table whose groups hold at most 15 keys, as every reachable
  one does), a lookup of the key in the table after the insertion returns found=true with
  at least zero hops and at least one comparison. This holds for every number of groups
  or slots, so also for the power-of-two capacities.
\<close>

theorem insert_then_find_succeeds:
  "(boost_wf m \<and> boost_insert m key = Some (Inr (m', b)) \<longrightarrow>
      (\<exists>info. boost_find m' key = Some (Inr (info, True))
             \<and> 0 \<le> num_hops info \<and> 1 \<le> num_cmps info))
   \<and> (abseil_insert a key' = Some (Inr (a', c)) \<longrightarrow>
      (\<exists>info. abseil_find a' key' = Some (Inr (info, True))
             \<and> 0 \<le> num_hops info \<and> 1 \<le> num_cmps info))"
  using boost_insert_then_find [of m key m' b] abseil_insert_then_find [of a key' a' c]
  by auto

theorem insert_then_find_succeeds_witness:
  "boost_wf boost_example
   \<and> boost_insert boost_example 16 = Some (Inr (boost_example_16, True))
   \<and> boost_find boost_example_16 16 = Some (Inr (\<lparr>num_hops = 1, num_cmps = 1\<rparr>, True))
   \<and> abseil_insert (abseil_new 2) 643 = Some (Inr (abseil_gap_example, True))
   \<and> abseil_find abseil_gap_example 643 = Some (Inr (\<lparr>num_hops = 0, num_cmps = 1\<rparr>, True))"
proof -
  have h: "boost_wf boost_example" by code_simp
  have i: "boost_insert boost_example 16 = Some (Inr (boost_example_16, True))" by code_simp
  have j: "abseil_insert (abseil_new 2) 643 = Some (Inr (abseil_gap_example, True))" by code_simp
  have e1: "boost_find boost_example_16 16 = Some (Inr (\<lparr>num_hops = 1, num_cmps = 1\<rparr>, True))"
    by code_simp
  have e2: "abseil_find abseil_gap_example 643 = Some (Inr (\<lparr>num_hops = 0, num_cmps = 1\<rparr>, True))"
    by code_simp
  from insert_then_find_succeeds
         [of boost_example 16 boost_example_16 True "abseil_new 2" 643 abseil_gap_example True]
       h i j
  have "(\<exists>info. boost_find boost_example_16 16 = Some (Inr (info, True)) \<and> 1 \<le> num_cmps info)
      \<and> (\<exists>info. abseil_find abseil_gap_example 643 = Some (Inr (info, True)) \<and> 1 \<le> num_cmps info)"
    by simp
  with h i j e1 e2 show ?thesis by simp
qed

subsection \<open>Insertion only adds\<close>

text \<open>
  \<^bold>\<open>C8.\<close> For both variants, over any sequence of insertions that returns: the number
  of groups or slots stays the same; in Variant A no group's fill count decreases, the
  keys a group held are still there, in the same places, and no marker bit that was set
  is cleared; in Variant B every occupied slot keeps its key; and so \<^verbatim>\<open>pr_group_full\<close>
  does not decrease (in a table without groups or slots it is not a finite number, before
  and after). A lookup returns no table, so it changes none, and an insertion whose
  lookup finds the key returns the table as it was.
\<close>

theorem insertion_only_adds:
  "(boost_insert_all m keys = Some (Inr m') \<longrightarrow>
      length (groups m') = length (groups m)
      \<and> (i < length (groups m) \<longrightarrow>
           g_n (groups m ! i) \<le> g_n (groups m' ! i)
           \<and> take (g_n (groups m ! i)) (boost_group_keys (groups m' ! i))
               = boost_group_keys (groups m ! i)
           \<and> g_overflow (groups m ! i) AND g_overflow (groups m' ! i) = g_overflow (groups m ! i))
      \<and> (boost_pr_group_full m = Finite p \<longrightarrow>
           (\<exists>p'. boost_pr_group_full m' = Finite p' \<and> p \<le> p'))
      \<and> (boost_pr_group_full m = NotFinite \<longrightarrow> boost_pr_group_full m' = NotFinite))
   \<and> (abseil_insert_all a keys' = Some (Inr a') \<longrightarrow>
      length (elements a') = length (elements a)
      \<and> (i' < length (elements a) \<and> elements a ! i' \<noteq> None \<longrightarrow>
           elements a' ! i' = elements a ! i')
      \<and> (abseil_pr_group_full a = Finite r \<longrightarrow>
           (\<exists>r'. abseil_pr_group_full a' = Finite r' \<and> r \<le> r'))
      \<and> (abseil_pr_group_full a = NotFinite \<longrightarrow> abseil_pr_group_full a' = NotFinite))
   \<and> (boost_find m key = Some (Inr (info, True)) \<longrightarrow> boost_insert m key = Some (Inr (m, False)))
   \<and> (abseil_find a key' = Some (Inr (info', True)) \<longrightarrow>
        abseil_insert a key' = Some (Inr (a, False)))"
proof -
  have A: "length (groups m') = length (groups m)
      \<and> (i < length (groups m) \<longrightarrow>
           g_n (groups m ! i) \<le> g_n (groups m' ! i)
           \<and> take (g_n (groups m ! i)) (boost_group_keys (groups m' ! i))
               = boost_group_keys (groups m ! i)
           \<and> g_overflow (groups m ! i) AND g_overflow (groups m' ! i) = g_overflow (groups m ! i))
      \<and> (boost_pr_group_full m = Finite p \<longrightarrow>
           (\<exists>p'. boost_pr_group_full m' = Finite p' \<and> p \<le> p'))
      \<and> (boost_pr_group_full m = NotFinite \<longrightarrow> boost_pr_group_full m' = NotFinite)"
    if ins: "boost_insert_all m keys = Some (Inr m')"
  proof -
    from ins have le: "boost_le m m'" by (rule boost_insert_all_le)
    have 1: "length (groups m') = length (groups m)" using le by (rule boost_le_length)
    have 2: "g_n (groups m ! i) \<le> g_n (groups m' ! i)
           \<and> take (g_n (groups m ! i)) (boost_group_keys (groups m' ! i))
               = boost_group_keys (groups m ! i)
           \<and> g_overflow (groups m ! i) AND g_overflow (groups m' ! i) = g_overflow (groups m ! i)"
      if "i < length (groups m)"
    proof -
      from le that have "boost_group_le (groups m ! i) (groups m' ! i)" by (rule boost_le_nth)
      then show ?thesis by (simp add: boost_group_le_def boost_group_keys_def min_def)
    qed
    from 1 2 boost_pr_group_full_mono [OF le, of p] show ?thesis by blast
  qed
  have B: "length (elements a') = length (elements a)
      \<and> (i' < length (elements a) \<and> elements a ! i' \<noteq> None \<longrightarrow>
           elements a' ! i' = elements a ! i')
      \<and> (abseil_pr_group_full a = Finite r \<longrightarrow>
           (\<exists>r'. abseil_pr_group_full a' = Finite r' \<and> r \<le> r'))
      \<and> (abseil_pr_group_full a = NotFinite \<longrightarrow> abseil_pr_group_full a' = NotFinite)"
    if ins: "abseil_insert_all a keys' = Some (Inr a')"
  proof -
    from ins have le: "abseil_le a a'" by (rule abseil_insert_all_le)
    have 1: "length (elements a') = length (elements a)" using le by (rule abseil_le_length)
    have 2: "elements a' ! i' = elements a ! i'"
      if "i' < length (elements a) \<and> elements a ! i' \<noteq> None"
      using that le by (auto simp: abseil_le_def list_all2_conv_all_nth)
    from 1 2 abseil_pr_group_full_mono [OF le, of r] show ?thesis by blast
  qed
  have C: "boost_insert m key = Some (Inr (m, False))"
    if "boost_find m key = Some (Inr (info, True))"
    using that by (simp add: boost_insert_def)
  have D: "abseil_insert a key' = Some (Inr (a, False))"
    if "abseil_find a key' = Some (Inr (info', True))"
    using that by (simp add: abseil_insert_def)
  from A B C D show ?thesis by blast
qed

theorem insertion_only_adds_witness:
  "boost_insert_all boost_example [16] = Some (Inr boost_example_16)
   \<and> (0::nat) < length (groups boost_example)
   \<and> g_n (groups boost_example ! 0) \<le> g_n (groups boost_example_16 ! 0)
   \<and> g_overflow (groups boost_example ! 0) AND g_overflow (groups boost_example_16 ! 0)
       = g_overflow (groups boost_example ! 0)
   \<and> boost_pr_group_full boost_example = Finite (1 / 2)
   \<and> (\<exists>p'. boost_pr_group_full boost_example_16 = Finite p' \<and> 1 / 2 \<le> p')
   \<and> abseil_insert_all (abseil_new 2) [1024, 1025, 1026, 1027, 1028, 1029, 1030, 1031, 1032,
        1033, 1034, 1035, 1036, 1037, 1038, 1039] = Some (Inr abseil_run_example)
   \<and> abseil_pr_group_full (abseil_new 2) = Finite 0
   \<and> (\<exists>r'. abseil_pr_group_full abseil_run_example = Finite r' \<and> 0 \<le> r')
   \<and> abseil_pr_group_full abseil_run_example = Finite (1 / 32)
   \<and> boost_find boost_example_16 16 = Some (Inr (\<lparr>num_hops = 1, num_cmps = 1\<rparr>, True))
   \<and> boost_insert boost_example_16 16 = Some (Inr (boost_example_16, False))
   \<and> abseil_find abseil_gap_example 643 = Some (Inr (\<lparr>num_hops = 0, num_cmps = 1\<rparr>, True))
   \<and> abseil_insert abseil_gap_example 643 = Some (Inr (abseil_gap_example, False))"
proof -
  have a: "boost_insert_all boost_example [16] = Some (Inr boost_example_16)" by code_simp
  have b: "(0::nat) < length (groups boost_example)" by (simp add: boost_example_def)
  have c: "abseil_insert_all (abseil_new 2) [1024, 1025, 1026, 1027, 1028, 1029, 1030, 1031,
        1032, 1033, 1034, 1035, 1036, 1037, 1038, 1039] = Some (Inr abseil_run_example)"
    by code_simp
  have d: "boost_find boost_example_16 16 = Some (Inr (\<lparr>num_hops = 1, num_cmps = 1\<rparr>, True))"
    by code_simp
  have e: "abseil_find abseil_gap_example 643 = Some (Inr (\<lparr>num_hops = 0, num_cmps = 1\<rparr>, True))"
    by code_simp
  have f: "boost_pr_group_full boost_example = Finite (1 / 2)" by code_simp
  have g: "abseil_pr_group_full (abseil_new 2) = Finite 0" by code_simp
  have h: "abseil_pr_group_full abseil_run_example = Finite (1 / 32)" by code_simp
  from insertion_only_adds [where m = boost_example and keys = "[16]" and m' = boost_example_16
         and i = 0 and p = "1 / 2" and a = "abseil_new 2" and a' = abseil_run_example
         and r = 0
         and keys' = "[1024, 1025, 1026, 1027, 1028, 1029, 1030, 1031,
           1032, 1033, 1034, 1035, 1036, 1037, 1038, 1039]"] a b c f g
  have 1: "g_n (groups boost_example ! 0) \<le> g_n (groups boost_example_16 ! 0)
     \<and> g_overflow (groups boost_example ! 0) AND g_overflow (groups boost_example_16 ! 0)
         = g_overflow (groups boost_example ! 0)
     \<and> (\<exists>p'. boost_pr_group_full boost_example_16 = Finite p' \<and> 1 / 2 \<le> p')
     \<and> (\<exists>r'. abseil_pr_group_full abseil_run_example = Finite r' \<and> 0 \<le> r')"
    by simp
  from insertion_only_adds [where a = abseil_gap_example and key' = 643] e
  have 2: "abseil_insert abseil_gap_example 643 = Some (Inr (abseil_gap_example, False))"
    by simp
  from insertion_only_adds [where m = boost_example_16 and key = 16] d
  have 3: "boost_insert boost_example_16 16 = Some (Inr (boost_example_16, False))"
    by simp
  from a b c d e f g h 1 2 3 show ?thesis by simp
qed

subsection \<open>Termination of insertion in Variant A\<close>

text \<open>As stated for every power-of-two capacity, the property fails for capacity 1, which
  is \<open>2^0\<close>: the constructor computes \<^verbatim>\<open>shift = 64 - bit_width(0) = 64\<close>, and
  \<^verbatim>\<open>hash >> 64\<close> is undefined, so the insertion of an absent key into the single empty
  group places nothing.\<close>

theorem boost_insert_single_group_faults:
  "length (groups (boost_new 1)) = 2 ^ 0
   \<and> boost_absent (boost_new 1) 5
   \<and> \<not> list_all boost_group_full (groups (boost_new 1))
   \<and> shift (boost_new 1) = 64
   \<and> boost_insert (boost_new 1) 5 = Some (Inl ShiftOutOfRange)"
  by code_simp

text \<open>
  \<^bold>\<open>C10 (amended).\<close> For Variant A with a capacity of \<open>2^k\<close> groups, \<open>1 \<le> k < 64\<close>, in
  a table state that satisfies the invariant of the constructor and the insertions
  (lemmas \<open>boost_inv_new\<close> and \<open>boost_inv_insert\<close>): the insertion of a key stored in no
  group returns true whenever at least one group has fewer than 15 keys, and appends the
  key to the first probed group with room, which the probe sequence reaches within its
  first \<open>2^k\<close> positions; the insertion loop ignores the prober's boolean, so when every
  group is full the insertion of such a key never returns.
\<close>

theorem boost_insert_terminates_iff_room:
  assumes "boost_inv m" and "length (groups m) = 2 ^ k" and "1 \<le> k" and "k < 64"
    and "boost_absent m key"
  shows "(\<not> list_all boost_group_full (groups m) \<longrightarrow>
            (\<exists>j m'. j < 2 ^ k
               \<and> boost_insert m key = Some (Inr (m', True))
               \<and> (\<forall>i<j. boost_group_full (boost_group_at m (boost_probe m key i)))
               \<and> \<not> boost_group_full (boost_group_at m (boost_probe m key j))
               \<and> boost_group_keys (boost_group_at m' (boost_probe m key j))
                   = boost_group_keys (boost_group_at m (boost_probe m key j)) @ [key]))
       \<and> (list_all boost_group_full (groups m) \<longrightarrow> boost_insert m key = None)"
  using boost_insert_terminates [OF assms] boost_insert_diverges [OF assms] by blast

theorem boost_insert_terminates_iff_room_witness:
  "boost_inv boost_example \<and> length (groups boost_example) = 2 ^ 1
   \<and> (1::nat) \<le> 1 \<and> (1::nat) < 64
   \<and> boost_absent boost_example 16
   \<and> \<not> list_all boost_group_full (groups boost_example)
   \<and> boost_insert boost_example 16 = Some (Inr (boost_example_16, True))
   \<and> (\<exists>j<2 ^ 1. \<not> boost_group_full (boost_group_at boost_example (boost_probe boost_example 16 j)))
   \<and> boost_inv boost_full_example \<and> length (groups boost_full_example) = 2 ^ 1
   \<and> boost_absent boost_full_example 16
   \<and> list_all boost_group_full (groups boost_full_example)
   \<and> boost_insert boost_full_example 16 = None"
proof -
  have h1: "boost_inv boost_example" by code_simp
  have h2: "length (groups boost_example) = 2 ^ 1" by (simp add: boost_example_def)
  have h3: "boost_absent boost_example 16" by code_simp
  have h4: "\<not> list_all boost_group_full (groups boost_example)" by code_simp
  have i: "boost_insert boost_example 16 = Some (Inr (boost_example_16, True))" by code_simp
  have g1: "boost_inv boost_full_example" by code_simp
  have g2: "length (groups boost_full_example) = 2 ^ 1" by (simp add: boost_full_example_def)
  have g3: "boost_absent boost_full_example 16" by code_simp
  have g4: "list_all boost_group_full (groups boost_full_example)" by code_simp
  from boost_insert_terminates_iff_room [OF h1 h2 _ _ h3] h4
  have a: "\<exists>j<2 ^ 1. \<not> boost_group_full (boost_group_at boost_example (boost_probe boost_example 16 j))"
    by auto
  from boost_insert_terminates_iff_room [OF g1 g2 _ _ g3] g4
  have b: "boost_insert boost_full_example 16 = None" by simp
  from h1 h2 h3 h4 i g1 g2 g3 g4 a b show ?thesis by simp
qed

section \<open>The driver at load factor 0\<close>

lemma stats_row_at_zero:
  "stats_row ops gen0 gen1 capacity 0
     = Some (Inr \<lparr>st_lf = 0,
                  st_pr_group_full = ops_pr_group_full ops (ops_new ops capacity),
                  st_hops_successful = Finite 0, st_cmps_successful = Finite 0,
                  st_hops_unsuccessful = Finite 0, st_cmps_unsuccessful = Finite 0\<rparr>)"
proof -
  have t: "target_size ops capacity 0 = 0" by (simp add: target_size_def)
  have a: "stats_row_insert_loop ops gen0 m 0 0 0 = Some (Inr m)" for m
    by (subst stats_row_insert_loop.simps) simp
  have b: "stats_row_successful_loop ops gen0 m 0 0 0 info = Some (Inr info)" for m info
    by (subst stats_row_successful_loop.simps) simp
  have c: "stats_row_unsuccessful_loop ops gen1 m 0 0 0 info = Some (Inr info)" for m info
    by (subst stats_row_unsuccessful_loop.simps) simp
  show ?thesis
    by (simp add: stats_row_def t a b c guarded_mean_def)
qed

text \<open>
  \<^bold>\<open>C9.\<close> For every capacity and both variants, at load factor 0 the target insertion
  count is 0, none of the three loops runs, and the row reports 0 for the four lookup
  means: the test for an empty sample guards the quotient, whatever was counted, and
  the division by the zero count, which would not give a finite number, is not made.
\<close>

theorem stats_row_zero_load_factor:
  "target_size boost_ops capacity 0 = 0
   \<and> target_size abseil_ops capacity 0 = 0
   \<and> guarded_mean 0 x = Finite 0
   \<and> float_div x 0 = NotFinite
   \<and> stats_row boost_ops gen0 gen1 capacity 0
       = Some (Inr \<lparr>st_lf = 0,
                    st_pr_group_full = boost_pr_group_full (boost_new capacity),
                    st_hops_successful = Finite 0, st_cmps_successful = Finite 0,
                    st_hops_unsuccessful = Finite 0, st_cmps_unsuccessful = Finite 0\<rparr>)
   \<and> stats_row abseil_ops gen0 gen1 capacity 0
       = Some (Inr \<lparr>st_lf = 0,
                    st_pr_group_full = abseil_pr_group_full (abseil_new capacity),
                    st_hops_successful = Finite 0, st_cmps_successful = Finite 0,
                    st_hops_unsuccessful = Finite 0, st_cmps_unsuccessful = Finite 0\<rparr>)"
  by (simp add: stats_row_at_zero target_size_def guarded_mean_def float_div_zero
        boost_ops_def abseil_ops_def)


end
